theory Spec2Isabelle
  imports
    Main
    "HOL-Library.Multiset"
    "HOL-Library.Char_ord"
    "HOL-Library.List_Lexorder"
    "HOL-Library.Product_Lexorder"
    "HOL-Library.AList"
begin

section \<open>Python strings\<close>

text \<open>
  The two source files are Python. A Python \<open>str\<close> is modelled as a \<open>string\<close>; a
  \<open>char\<close> stands for a code point below 256. The character classes below are the ones of
  \<open>str.isspace\<close>, \<open>str.isdigit\<close> and \<open>str.isalnum\<close> on that range; \<open>is_decimal\<close> is the
  class of the regular expression \<open>\d\<close> and of the digits \<open>int()\<close> accepts, which on
  that range are the ten ASCII digits only.
\<close>

definition is_decimal :: "char \<Rightarrow> bool" where
  "is_decimal c = (c \<in> set ''0123456789'')"

definition isspace :: "char \<Rightarrow> bool" where
  "isspace c = (of_char c \<in> set [9, 10, 11, 12, 13, 28, 29, 30, 31, 32, 133, 160 :: nat])"

definition isdigit :: "char \<Rightarrow> bool" where
  "isdigit c = (is_decimal c \<or> of_char c \<in> set [178, 179, 185 :: nat])"

definition isalpha :: "char \<Rightarrow> bool" where
  "isalpha c = (let n = of_char c :: nat in
     (65 \<le> n \<and> n \<le> 90) \<or> (97 \<le> n \<and> n \<le> 122) \<or> n = 170 \<or> n = 181 \<or> n = 186 \<or>
     (192 \<le> n \<and> n \<le> 214) \<or> (216 \<le> n \<and> n \<le> 246) \<or> (248 \<le> n \<and> n \<le> 255))"

definition isalnum :: "char \<Rightarrow> bool" where
  "isalnum c = (isalpha c \<or> isdigit c \<or> of_char c \<in> set [188, 189, 190 :: nat])"

text \<open>\<open>s.isdigit()\<close>: every character is a digit and there is at least one.\<close>

definition str_isdigit :: "string \<Rightarrow> bool" where
  "str_isdigit s = (s \<noteq> [] \<and> list_all isdigit s)"

text \<open>\<open>s.startswith(p)\<close>.\<close>

definition startswith :: "string \<Rightarrow> string \<Rightarrow> bool" where
  "startswith s p = (take (length p) s = p)"

text \<open>\<open>s.split(sep)\<close> for a one-character separator: never empty, one more part than
  there are separators.\<close>

fun str_split :: "string \<Rightarrow> char \<Rightarrow> string list" where
  "str_split [] sep = [[]]"
| "str_split (c # cs) sep =
     (if c = sep then [] # str_split cs sep
      else (case str_split cs sep of
              [] \<Rightarrow> [[c]]
            | p # ps \<Rightarrow> (c # p) # ps))"

text \<open>\<open>sep.join(parts)\<close>.\<close>

fun join :: "string \<Rightarrow> string list \<Rightarrow> string" where
  "join sep [] = []"
| "join sep [p] = p"
| "join sep (p # q # ps) = p @ sep @ join sep (q # ps)"

text \<open>\<open>str(n)\<close> for a natural number.\<close>

definition digit_char :: "nat \<Rightarrow> char" where
  "digit_char d = ''0123456789'' ! d"

fun string_of_nat :: "nat \<Rightarrow> string" where
  "string_of_nat n =
     (if n < 10 then [digit_char n] else string_of_nat (n div 10) @ [digit_char (n mod 10)])"

declare string_of_nat.simps [simp del]

text \<open>\<open>str(i)\<close> for an integer, as an f-string renders it.\<close>

definition str_of_int :: "int \<Rightarrow> string" where
  "str_of_int i = (if i < 0 then CHR ''-'' # string_of_nat (nat (- i)) else string_of_nat (nat i))"

text \<open>
  \<open>int(s)\<close> in base ten: surrounding whitespace is skipped, one sign may lead, and the
  digits may be grouped by single underscores. \<open>None\<close> is the \<open>ValueError\<close>. The whitespace
  that \<open>int()\<close> skips is narrower than the class of \<open>str.isspace\<close>: below 128 it is the
  six characters of C's \<open>isspace\<close>, so the separators U+001C to U+001F are not skipped and
  make the call fail.
  (The interpreter's limit on the number of digits, 4300 by default, is not modelled.)
\<close>

definition int_space :: "char \<Rightarrow> bool" where
  "int_space c = (of_char c \<in> set [9, 10, 11, 12, 13, 32, 133, 160 :: nat])"

definition digit_value :: "char \<Rightarrow> nat" where
  "digit_value c = length (takeWhile (\<lambda>d. d \<noteq> c) ''0123456789'')"

definition strip :: "string \<Rightarrow> string" where
  "strip s = rev (dropWhile int_space (rev (dropWhile int_space s)))"

fun int_digits :: "nat \<Rightarrow> string \<Rightarrow> nat option" where
  "int_digits acc [] = Some acc"
| "int_digits acc [c] =
     (if is_decimal c then Some (acc * 10 + digit_value c) else None)"
| "int_digits acc (c # d # cs) =
     (if is_decimal c then int_digits (acc * 10 + digit_value c) (d # cs)
      else if c = CHR ''_'' \<and> is_decimal d then int_digits (acc * 10 + digit_value d) cs
      else None)"

definition int_unsigned :: "string \<Rightarrow> nat option" where
  "int_unsigned s =
     (case s of
        [] \<Rightarrow> None
      | c # cs \<Rightarrow> if is_decimal c then int_digits (digit_value c) cs else None)"

definition py_int :: "string \<Rightarrow> int option" where
  "py_int s =
     (case strip s of
        [] \<Rightarrow> None
      | c # cs \<Rightarrow>
          if c = CHR ''-'' then map_option (\<lambda>n. - int n) (int_unsigned cs)
          else if c = CHR ''+'' then map_option int (int_unsigned cs)
          else map_option int (int_unsigned (c # cs)))"


section \<open>Reference resolution (LLM-CL\_Encoder\_Decoder.py)\<close>

text \<open>
  The values a context message holds: what \<open>json\<close> can carry. A dictionary is an
  association list in insertion order, which is the order \<open>dict.items()\<close> iterates in.
\<close>

datatype pyval =
    PNone
  | PBool bool
  | PInt int
  | PStr string
  | PList "pyval list"
  | PDict "(string \<times> pyval) list"

type_synonym message = "(string \<times> pyval) list"

text \<open>The state of a \<open>ReferenceResolver\<close>.\<close>

record resolver =
  context_buffer :: "message list"
  max_context_size :: int

definition init_resolver :: "int \<Rightarrow> resolver" where
  "init_resolver n = \<lparr>context_buffer = [], max_context_size = n\<rparr>"

text \<open>\<open>add_to_context\<close>: append, then drop the oldest entry when the buffer is too long.\<close>

definition add_to_context :: "resolver \<Rightarrow> message \<Rightarrow> resolver" where
  "add_to_context self m =
     (let buf = context_buffer self @ [m] in
      if int (length buf) > max_context_size self
      then self\<lparr>context_buffer := tl buf\<rparr>
      else self\<lparr>context_buffer := buf\<rparr>)"

text \<open>
  A Python function that returns \<open>None\<close> has failed to resolve: the result type is
  \<open>pyval option\<close> and \<open>py_return\<close> maps a found \<open>None\<close> value to the same \<open>None\<close>.
\<close>

definition py_return :: "pyval \<Rightarrow> pyval option" where
  "py_return v = (if v = PNone then None else Some v)"

definition is_dict :: "pyval \<Rightarrow> bool" where
  "is_dict v = (case v of PDict d \<Rightarrow> True | _ \<Rightarrow> False)"

definition has_key_prefix :: "string \<Rightarrow> pyval \<Rightarrow> bool" where
  "has_key_prefix segment v =
     (case v of PDict d \<Rightarrow> list_ex (\<lambda>k. startswith k segment) (map fst d) | _ \<Rightarrow> False)"

text \<open>\<open>_resolve_path\<close>: the loop over the path segments, the current object first.\<close>

fun resolve_path :: "pyval \<Rightarrow> string list \<Rightarrow> pyval option" where
  "resolve_path current [] = py_return current"
| "resolve_path (PDict d) (segment # path) =
     (if startswith segment ''#'' then
        (case find (\<lambda>kv. startswith (fst kv) segment) d of
           None \<Rightarrow> None
         | Some kv \<Rightarrow> resolve_path (snd kv) path)
      else
        (case map_of d segment of
           None \<Rightarrow> None
         | Some v \<Rightarrow> if v = PNone then None else resolve_path v path))"
| "resolve_path (PList items) (segment # path) =
     (case py_int segment of
        Some index \<Rightarrow>
          if 0 \<le> index \<and> index < int (length items)
          then resolve_path (items ! nat index) path
          else None
      | None \<Rightarrow>
          if startswith segment ''#'' then
            (case find (has_key_prefix segment) items of
               None \<Rightarrow> None
             | Some item \<Rightarrow> resolve_path item path)
          else None)"
| "resolve_path current (segment # path) = None"

text \<open>
  \<open>resolve_reference\<close>. The method reads \<open>self\<close> and assigns to none of its fields; the
  model returns the resolver next to the result, as every method of the class does.
  \<open>buf[-index]\<close> with \<open>1 \<le> index \<le> len(buf)\<close> is \<open>buf ! (length buf - index)\<close>.
\<close>

definition resolve_reference :: "resolver \<Rightarrow> string \<Rightarrow> pyval option \<times> resolver" where
  "resolve_reference self ref_token =
     (if \<not> startswith ref_token ''^'' then (None, self)
      else
        (case str_split (drop 1 ref_token) CHR ''.'' of
           [] \<Rightarrow> (None, self)
         | part0 # rest \<Rightarrow>
             if startswith part0 ''prev'' then
               (case py_int (drop 4 part0) of
                  None \<Rightarrow> (None, self)
                | Some index \<Rightarrow>
                    if index \<le> 0 \<or> index > int (length (context_buffer self))
                    then (None, self)
                    else (resolve_path
                            (PDict (context_buffer self !
                                      (length (context_buffer self) - nat index)))
                            rest, self))
             else if part0 = ''self'' then
               (if context_buffer self = [] then (None, self)
                else (resolve_path (PDict (last (context_buffer self))) rest, self))
             else if part0 = ''shared'' then
               (Some (PDict [(''type'', PStr ''shared_knowledge''),
                             (''path'', PStr (join ''.'' rest))]), self)
             else (None, self)))"


section \<open>The concept registry (LLM-CL\_Encoder\_Decoder.py)\<close>

text \<open>
  One entry of \<open>UniversalConceptSpace.concepts\<close>: a dictionary with the five keys below
  (\<open>defn\<close> is the key \<open>definition\<close>). The registry is the dictionary from concept ids to
  entries, in insertion order.
\<close>

record concept_def =
  label :: string
  defn :: string
  related :: "string list"
  hyponyms :: "string list"
  hypernyms :: "string list"

type_synonym registry = "(string \<times> concept_def) list"

text \<open>\<open>max(...)\<close> of a sequence: \<open>None\<close> is the \<open>ValueError\<close> on the empty sequence.\<close>

definition py_max :: "int list \<Rightarrow> int option" where
  "py_max xs = (case xs of [] \<Rightarrow> None | x # rest \<Rightarrow> Some (fold max rest x))"

text \<open>\<open>[int(cid[1:]) for cid in keys if cid[1:].isdigit()]\<close>; \<open>None\<close> when an \<open>int()\<close>
  raises.\<close>

fun numeric_suffixes :: "string list \<Rightarrow> int list option" where
  "numeric_suffixes [] = Some []"
| "numeric_suffixes (cid # cids) =
     (if str_isdigit (drop 1 cid) then
        (case py_int (drop 1 cid) of
           None \<Rightarrow> None
         | Some n \<Rightarrow> map_option ((#) n) (numeric_suffixes cids))
      else numeric_suffixes cids)"

text \<open>The three back-patching loops of \<open>add_concept\<close>: one step appends \<open>new_id\<close> to a list
  of the entry \<open>cid\<close>, if that entry exists and the list does not hold \<open>new_id\<close> yet.\<close>

definition patch_related :: "string \<Rightarrow> registry \<Rightarrow> string \<Rightarrow> registry" where
  "patch_related new_id concepts rel_id =
     (case map_of concepts rel_id of
        None \<Rightarrow> concepts
      | Some c \<Rightarrow>
          if new_id \<notin> set (related c)
          then AList.update rel_id (c\<lparr>related := related c @ [new_id]\<rparr>) concepts
          else concepts)"

definition patch_hypernyms :: "string \<Rightarrow> registry \<Rightarrow> string \<Rightarrow> registry" where
  "patch_hypernyms new_id concepts hyp_id =
     (case map_of concepts hyp_id of
        None \<Rightarrow> concepts
      | Some c \<Rightarrow>
          if new_id \<notin> set (hypernyms c)
          then AList.update hyp_id (c\<lparr>hypernyms := hypernyms c @ [new_id]\<rparr>) concepts
          else concepts)"

definition patch_hyponyms :: "string \<Rightarrow> registry \<Rightarrow> string \<Rightarrow> registry" where
  "patch_hyponyms new_id concepts hyp_id =
     (case map_of concepts hyp_id of
        None \<Rightarrow> concepts
      | Some c \<Rightarrow>
          if new_id \<notin> set (hyponyms c)
          then AList.update hyp_id (c\<lparr>hyponyms := hyponyms c @ [new_id]\<rparr>) concepts
          else concepts)"

text \<open>\<open>x or []\<close> for an optional list argument.\<close>

definition or_empty :: "'a list option \<Rightarrow> 'a list" where
  "or_empty xs = (case xs of None \<Rightarrow> [] | Some l \<Rightarrow> l)"

text \<open>
  \<open>add_concept\<close>. The result is the new id and the registry after the call; \<open>None\<close> is
  the \<open>ValueError\<close> raised while the new id is computed, before anything is stored.
  The three argument lists are taken to be objects of their own, shared neither with each
  other nor with a list of the registry.
\<close>

definition add_concept ::
  "registry \<Rightarrow> string \<Rightarrow> string \<Rightarrow> string list option \<Rightarrow> string list option \<Rightarrow>
   string list option \<Rightarrow> (string \<times> registry) option" where
  "add_concept concepts lbl definition_text rel hypo hyper =
     (case numeric_suffixes (map fst concepts) of
        None \<Rightarrow> None
      | Some nums \<Rightarrow>
          (case py_max nums of
             None \<Rightarrow> None
           | Some m \<Rightarrow>
               let new_id = CHR ''c'' # str_of_int (m + 1);
                   c0 = AList.update new_id
                          \<lparr>label = lbl, defn = definition_text, related = or_empty rel,
                           hyponyms = or_empty hypo, hypernyms = or_empty hyper\<rparr> concepts;
                   c1 = fold (\<lambda>rel_id c. patch_related new_id c rel_id) (or_empty rel) c0;
                   c2 = fold (\<lambda>hyp_id c. patch_hypernyms new_id c hyp_id) (or_empty hypo) c1;
                   c3 = fold (\<lambda>hyp_id c. patch_hyponyms new_id c hyp_id) (or_empty hyper) c2
               in Some (new_id, c3)))"


section \<open>Tokens and syntax trees (LLM-CL\_Compiler.py)\<close>

datatype token_type =
    TT_VERSION | TT_CONCEPT | TT_RELATION | TT_QUANTIFIER | TT_REFERENCE | TT_OPERATOR
  | TT_OPEN_BRACE | TT_CLOSE_BRACE | TT_IDENTIFIER | TT_WHITESPACE | TT_EOF | TT_ERROR

datatype token = Token (tok_type: token_type) (tok_value: string) (tok_line: int) (tok_column: int)

datatype ast_node_type =
    NT_MESSAGE | NT_VERSION | NT_CONCEPT | NT_RELATION | NT_QUANTIFIER | NT_REFERENCE
  | NT_LIST | NT_ITEM | NT_PROPERTY

text \<open>\<open>ASTNodeType.name\<close>.\<close>

fun node_type_name :: "ast_node_type \<Rightarrow> string" where
  "node_type_name NT_MESSAGE = ''MESSAGE''"
| "node_type_name NT_VERSION = ''VERSION''"
| "node_type_name NT_CONCEPT = ''CONCEPT''"
| "node_type_name NT_RELATION = ''RELATION''"
| "node_type_name NT_QUANTIFIER = ''QUANTIFIER''"
| "node_type_name NT_REFERENCE = ''REFERENCE''"
| "node_type_name NT_LIST = ''LIST''"
| "node_type_name NT_ITEM = ''ITEM''"
| "node_type_name NT_PROPERTY = ''PROPERTY''"

text \<open>An \<open>ASTNode\<close>: type, optional value, children, attributes (a dictionary of strings).\<close>

datatype ast_node =
  ASTNode (node_type: ast_node_type) (node_value: "string option")
          (children: "ast_node list") (attributes: "(string \<times> string) list")


section \<open>Semantic analysis\<close>

text \<open>The two lists a \<open>SemanticAnalyzer\<close> appends to.\<close>

record analyzer =
  errors :: "string list"
  warnings :: "string list"

definition add_error :: "string \<Rightarrow> analyzer \<Rightarrow> analyzer" where
  "add_error e self = self\<lparr>errors := errors self @ [e]\<rparr>"

definition add_warning :: "string \<Rightarrow> analyzer \<Rightarrow> analyzer" where
  "add_warning w self = self\<lparr>warnings := warnings self @ [w]\<rparr>"

definition check_message_structure :: "ast_node \<Rightarrow> analyzer \<Rightarrow> analyzer" where
  "check_message_structure node self =
     (let self1 = (if filter (\<lambda>child. node_type child = NT_VERSION) (children node) = []
                   then add_error ''Message missing version marker'' self else self)
      in if filter (\<lambda>child. node_type child \<noteq> NT_VERSION) (children node) = []
         then add_warning ''Message has no content nodes'' self1 else self1)"

text \<open>\<open>_check_concept\<close>; \<open>concept_space\<close> is the dictionary the analyzer was given, of which
  only the keys are read.\<close>

definition check_concept :: "registry \<Rightarrow> ast_node \<Rightarrow> analyzer \<Rightarrow> analyzer" where
  "check_concept concept_space node self =
     (case node_value node of
        None \<Rightarrow> self
      | Some v \<Rightarrow>
          if v \<noteq> [] \<and> startswith v ''#c'' \<and> CHR ''~'' \<notin> set v then
            (let concept_id = drop 1 v in
             if concept_space \<noteq> [] \<and> concept_id \<notin> set (map fst concept_space)
             then add_warning (''Unknown concept ID: '' @ concept_id) self
             else self)
          else self)"

definition check_reference :: "ast_node \<Rightarrow> analyzer \<Rightarrow> analyzer" where
  "check_reference node self =
     (case node_value node of
        None \<Rightarrow> add_error ''Reference node has no value'' self
      | Some ref_value \<Rightarrow>
          if ref_value = [] then add_error ''Reference node has no value'' self
          else if \<not> startswith ref_value ''^''
          then add_error (''Invalid reference format: '' @ ref_value) self
          else
            (case str_split (drop 1 ref_value) CHR ''.'' of
               [] \<Rightarrow> self
             | first_segment # rest \<Rightarrow>
                 let self1 =
                       (if \<not> (first_segment = ''self'' \<or> first_segment = ''shared'' \<or>
                               startswith first_segment ''prev'')
                        then add_warning (''Unusual reference type: '' @ first_segment) self
                        else self)
                 in if startswith first_segment ''prev'' \<and>
                       \<not> str_isdigit (drop 4 first_segment)
                    then add_error (''Invalid prev index: '' @ first_segment) self1
                    else self1))"

text \<open>\<open>_analyze_node\<close>: the check of the node, then the children from left to right.\<close>

fun analyze_node :: "registry \<Rightarrow> ast_node \<Rightarrow> analyzer \<Rightarrow> analyzer" where
  "analyze_node concept_space (ASTNode t v kids attrs) self =
     fold (analyze_node concept_space) kids
       (if t = NT_MESSAGE then check_message_structure (ASTNode t v kids attrs) self
        else if t = NT_CONCEPT then check_concept concept_space (ASTNode t v kids attrs) self
        else if t = NT_REFERENCE then check_reference (ASTNode t v kids attrs) self
        else self)"

definition analyze :: "registry \<Rightarrow> ast_node \<Rightarrow> string list \<times> string list" where
  "analyze concept_space ast =
     (let self = analyze_node concept_space ast \<lparr>errors = [], warnings = []\<rparr>
      in (errors self, warnings self))"



section \<open>The scanner\<close>

definition newline :: char where
  "newline = CHR 0x0A"

definition identifier_char :: "char \<Rightarrow> bool" where
  "identifier_char c = (isalnum c \<or> c = CHR ''_'')"

definition concept_char :: "char \<Rightarrow> bool" where
  "concept_char c = (isalnum c \<or> c \<in> set ''_~'')"

definition reference_char :: "char \<Rightarrow> bool" where
  "reference_char c = (isalnum c \<or> c \<in> set ''_.#'')"

text \<open>\<open>re.match(r'v\d+\.\d+', s)\<close>: the matched text. Both runs of digits are greedy and
  nothing can be given back, since a run of digits is followed by a character that is not a
  digit.\<close>

definition match_version :: "string \<Rightarrow> string option" where
  "match_version s =
     (case s of
        [] \<Rightarrow> None
      | c # r \<Rightarrow>
          if c \<noteq> CHR ''v'' \<or> takeWhile is_decimal r = [] then None
          else (case dropWhile is_decimal r of
                  [] \<Rightarrow> None
                | d # r2 \<Rightarrow>
                    if d \<noteq> CHR ''.'' \<or> takeWhile is_decimal r2 = [] then None
                    else Some (CHR ''v'' # takeWhile is_decimal r @ CHR ''.'' #
                               takeWhile is_decimal r2)))"

text \<open>The line and column after a run of whitespace (\<open>_tokenize_whitespace\<close>).\<close>

definition after_whitespace :: "string \<Rightarrow> int \<times> int \<Rightarrow> int \<times> int" where
  "after_whitespace ws pos =
     fold (\<lambda>ch (line, column). if ch = newline then (line + 1, 1) else (line, column + 1)) ws pos"

text \<open>
  The state of the \<open>Lexer\<close> between two tokens: the text from \<open>self.position\<close> on,
  \<open>self.line\<close> and \<open>self.column\<close>. Each \<open>_tokenize_\<close> method is given the character at
  \<open>self.position\<close> and the text after it, and returns its token and the new state.
  A whitespace token carries the line reached after the run and the column the run
  started at, as in the source.
\<close>

type_synonym lexer_state = "string \<times> int \<times> int"

definition tokenize_whitespace :: "char \<Rightarrow> string \<Rightarrow> int \<Rightarrow> int \<Rightarrow> token \<times> lexer_state" where
  "tokenize_whitespace c cs line column =
     (let ws = c # takeWhile isspace cs;
          pos = after_whitespace ws (line, column)
      in (Token TT_WHITESPACE ws (fst pos) column, dropWhile isspace cs, fst pos, snd pos))"

definition tokenize_version :: "string \<Rightarrow> int \<Rightarrow> int \<Rightarrow> token \<times> lexer_state" where
  "tokenize_version cs line column =
     (case match_version cs of
        Some version \<Rightarrow>
          (Token TT_VERSION (CHR ''@'' # version) line column,
           drop (length version) cs, line, column + 1 + int (length version))
      | None \<Rightarrow> (Token TT_ERROR ''@'' line column, cs, line, column + 1))"

text \<open>\<open>_tokenize_concept\<close>, \<open>_tokenize_relation\<close>, \<open>_tokenize_quantifier\<close> and
  \<open>_tokenize_reference\<close>: the sigil, then the longest run of the characters of the class.\<close>

definition tokenize_run ::
  "token_type \<Rightarrow> (char \<Rightarrow> bool) \<Rightarrow> char \<Rightarrow> string \<Rightarrow> int \<Rightarrow> int \<Rightarrow> token \<times> lexer_state" where
  "tokenize_run t cls sigil cs line column =
     (Token t (sigil # takeWhile cls cs) line column,
      dropWhile cls cs, line, column + 1 + int (length (takeWhile cls cs)))"

definition tokenize_concept :: "string \<Rightarrow> int \<Rightarrow> int \<Rightarrow> token \<times> lexer_state" where
  "tokenize_concept = tokenize_run TT_CONCEPT concept_char (CHR ''#'')"

definition tokenize_relation :: "string \<Rightarrow> int \<Rightarrow> int \<Rightarrow> token \<times> lexer_state" where
  "tokenize_relation = tokenize_run TT_RELATION identifier_char (CHR ''~'')"

definition tokenize_quantifier :: "string \<Rightarrow> int \<Rightarrow> int \<Rightarrow> token \<times> lexer_state" where
  "tokenize_quantifier = tokenize_run TT_QUANTIFIER identifier_char (CHR ''$'')"

definition tokenize_reference :: "string \<Rightarrow> int \<Rightarrow> int \<Rightarrow> token \<times> lexer_state" where
  "tokenize_reference = tokenize_run TT_REFERENCE reference_char (CHR ''^'')"

text \<open>\<open>_tokenize_identifier\<close>: the run starts at the character itself.\<close>

definition tokenize_identifier :: "char \<Rightarrow> string \<Rightarrow> int \<Rightarrow> int \<Rightarrow> token \<times> lexer_state" where
  "tokenize_identifier c cs line column =
     (Token TT_IDENTIFIER (c # takeWhile identifier_char cs) line column,
      dropWhile identifier_char cs, line, column + 1 + int (length (takeWhile identifier_char cs)))"

text \<open>\<open>_add_token(type, char)\<close> followed by \<open>_advance()\<close>.\<close>

definition single :: "token_type \<Rightarrow> char \<Rightarrow> string \<Rightarrow> int \<Rightarrow> int \<Rightarrow> token \<times> lexer_state" where
  "single t c cs line column = (Token t [c] line column, cs, line, column + 1)"

text \<open>One round of the loop of \<open>Lexer.tokenize\<close>.\<close>

definition next_token :: "char \<Rightarrow> string \<Rightarrow> int \<Rightarrow> int \<Rightarrow> token \<times> lexer_state" where
  "next_token c cs line column =
     (if isspace c then tokenize_whitespace c cs line column
      else if c = CHR ''@'' then tokenize_version cs line column
      else if c = CHR ''#'' then tokenize_concept cs line column
      else if c = CHR ''~'' then tokenize_relation cs line column
      else if c = CHR ''$'' then tokenize_quantifier cs line column
      else if c = CHR ''^'' then tokenize_reference cs line column
      else if c = CHR ''{'' then single TT_OPEN_BRACE c cs line column
      else if c = CHR ''}'' then single TT_CLOSE_BRACE c cs line column
      else if c \<in> set ''+-*/<>'' then single TT_OPERATOR c cs line column
      else if isalnum c \<or> c = CHR ''_'' then tokenize_identifier c cs line column
      else single TT_ERROR c cs line column)"

lemma match_version_length: "match_version cs = Some v \<Longrightarrow> length v \<le> length cs"
proof -
  assume a: "match_version cs = Some v"
  then obtain r r2 where cs: "cs = CHR ''v'' # r"
    and dr: "dropWhile is_decimal r = CHR ''.'' # r2"
    and v: "v = CHR ''v'' # takeWhile is_decimal r @ CHR ''.'' # takeWhile is_decimal r2"
    by (auto simp: match_version_def split: list.splits if_splits)
  have "length r = length (takeWhile is_decimal r @ dropWhile is_decimal r)"
    by simp
  also have "\<dots> = length (takeWhile is_decimal r) + (1 + length r2)"
    unfolding dr by simp
  finally have "length r = length (takeWhile is_decimal r) + (1 + length r2)" .
  moreover have "length (takeWhile is_decimal r2) \<le> length r2"
    by (rule length_takeWhile_le)
  ultimately show ?thesis using cs v by simp
qed

lemma tokenize_whitespace_length:
  "length (fst (snd (tokenize_whitespace c cs line column))) \<le> length cs"
  by (simp add: tokenize_whitespace_def Let_def length_dropWhile_le)

lemma tokenize_version_length:
  "length (fst (snd (tokenize_version cs line column))) \<le> length cs"
  by (cases "match_version cs") (simp_all add: tokenize_version_def)

lemma tokenize_run_length:
  "length (fst (snd (tokenize_run t cls sigil cs line column))) \<le> length cs"
  by (simp add: tokenize_run_def length_dropWhile_le)

lemma tokenize_identifier_length:
  "length (fst (snd (tokenize_identifier c cs line column))) \<le> length cs"
  by (simp add: tokenize_identifier_def length_dropWhile_le)

lemma single_length: "length (fst (snd (single t c cs line column))) \<le> length cs"
  by (simp add: single_def)

lemma next_token_length: "length (fst (snd (next_token c cs line column))) \<le> length cs"
  unfolding next_token_def tokenize_concept_def tokenize_relation_def tokenize_quantifier_def
    tokenize_reference_def
  by (simp only: tokenize_whitespace_length tokenize_version_length tokenize_run_length
        tokenize_identifier_length single_length if_split [of "\<lambda>x. length (fst (snd x)) \<le> length cs"]
        simp_thms if_True if_False split: if_split)

lemma next_token_rest:
  "next_token c cs line column = (tok, rest, line', column') \<Longrightarrow> length rest < Suc (length cs)"
  using next_token_length [of c cs line column] by simp

function tokenize_from :: "string \<Rightarrow> int \<Rightarrow> int \<Rightarrow> token list" where
  "tokenize_from [] line column = [Token TT_EOF [] line column]"
| "tokenize_from (c # cs) line column =
     (case next_token c cs line column of
        (tok, rest, line', column') \<Rightarrow> tok # tokenize_from rest line' column')"
  by pat_completeness auto
termination
proof (relation "measure (\<lambda>(s, line, column). length s)")
  show "wf (measure (\<lambda>(s, line, column). length s))" by simp
next
  fix c cs line column tok y rest z line' column'
  assume "(tok, y) = next_token c cs line column" "(rest, z) = y" "(line', column') = z"
  then have "next_token c cs line column = (tok, rest, line', column')" by simp
  then have "length rest < Suc (length cs)" by (rule next_token_rest)
  then show "((rest, line', column'), c # cs, line, column) \<in> measure (\<lambda>(s, line, column). length s)"
    by simp
qed

definition tokenize :: "string \<Rightarrow> token list" where
  "tokenize source = tokenize_from source 1 1"


section \<open>The parser\<close>

text \<open>
  What a parser method does: it returns, or it raises. \<open>ParseException e\<close> is the
  \<open>Exception(error)\<close> that \<open>_error\<close> raises after it has appended \<open>error\<close> to
  \<open>self.errors\<close>; \<open>IndexError\<close> is raised by \<open>_peek\<close> when \<open>self.current\<close> is behind the
  last token, which happens only for a token list without an end-of-file token.
  \<open>Exhausted\<close> belongs to the model alone: the recursion is made structural by a counter,
  and \<open>parse\<close> starts with a counter that is never used up (\<open>parse_total\<close> below).
\<close>

datatype exn = ParseException string | IndexError

datatype 'a outcome = Returns 'a | Raises exn | Exhausted

fun and_then :: "'a outcome \<Rightarrow> ('a \<Rightarrow> 'b outcome) \<Rightarrow> 'b outcome" where
  "and_then (Returns x) f = f x"
| "and_then (Raises e) f = Raises e"
| "and_then Exhausted f = Exhausted"

text \<open>\<open>_error\<close>: the message with the position of the current token.\<close>

definition error_at :: "token \<Rightarrow> string \<Rightarrow> string" where
  "error_at tok msg =
     ''Error at line '' @ str_of_int (tok_line tok) @ '', column '' @
     str_of_int (tok_column tok) @ '': '' @ msg"

text \<open>
  The four loops of the parser (in \<open>_parse_message\<close>, \<open>_parse_concept\<close>, \<open>_parse_relation\<close>
  and \<open>_parse_quantifier\<close>) have one shape and differ in the token types their
  \<open>if\<close>/\<open>elif\<close> chain matches and in the text of their two errors; \<open>accepts\<close>,
  \<open>unexpected\<close> and \<open>expected_close\<close> tabulate the differences.
\<close>

datatype body = MessageBody | ConceptBody | RelationBody | QuantifierBody

fun accepts :: "body \<Rightarrow> token_type \<Rightarrow> bool" where
  "accepts MessageBody t = (t \<in> {TT_CONCEPT, TT_RELATION, TT_QUANTIFIER, TT_REFERENCE})"
| "accepts ConceptBody t = (t \<in> {TT_CONCEPT, TT_RELATION, TT_QUANTIFIER, TT_REFERENCE})"
| "accepts RelationBody t = (t \<in> {TT_CONCEPT, TT_RELATION, TT_REFERENCE})"
| "accepts QuantifierBody t = (t \<in> {TT_CONCEPT, TT_QUANTIFIER, TT_IDENTIFIER})"

fun unexpected :: "body \<Rightarrow> string \<Rightarrow> string" where
  "unexpected MessageBody v = ''Unexpected token: '' @ v"
| "unexpected ConceptBody v = ''Unexpected token in concept: '' @ v"
| "unexpected RelationBody v = ''Unexpected token in relation: '' @ v"
| "unexpected QuantifierBody v = ''Unexpected token in quantifier: '' @ v"

fun expected_close :: "body \<Rightarrow> string" where
  "expected_close MessageBody = ''Expected '' @ [CHR 0x27] @ ''}'' @ [CHR 0x27] @ '' to close message''"
| "expected_close ConceptBody = ''Expected '' @ [CHR 0x27] @ ''}'' @ [CHR 0x27] @ '' to close concept''"
| "expected_close RelationBody = ''Expected '' @ [CHR 0x27] @ ''}'' @ [CHR 0x27] @ '' to close relation''"
| "expected_close QuantifierBody = ''Expected '' @ [CHR 0x27] @ ''}'' @ [CHR 0x27] @ '' to close quantifier''"

definition leaf :: "ast_node_type \<Rightarrow> string \<Rightarrow> ast_node" where
  "leaf t v = ASTNode t (Some v) [] []"

text \<open>\<open>_consume(CLOSE_BRACE, message)\<close> on the tokens from \<open>self.current\<close> on: the tokens
  after the brace.\<close>

definition consume_close :: "body \<Rightarrow> token list \<Rightarrow> token list outcome" where
  "consume_close b ts =
     (case ts of
        [] \<Rightarrow> Raises IndexError
      | t # rest \<Rightarrow>
          if tok_type t = TT_CLOSE_BRACE then Returns rest
          else Raises (ParseException (error_at t (expected_close b))))"

text \<open>
  \<open>parse_items n b node ts\<close> is the \<open>while\<close> loop of body \<open>b\<close>, adding children to \<open>node\<close>,
  with \<open>ts\<close> the tokens from \<open>self.current\<close> on; it returns the node and the tokens left.
  \<open>parse_braced n b node ts\<close> is what \<open>_parse_concept\<close>, \<open>_parse_relation\<close> and
  \<open>_parse_quantifier\<close> do once they have made their node: an optional braced body.
\<close>

fun parse_items :: "nat \<Rightarrow> body \<Rightarrow> ast_node \<Rightarrow> token list \<Rightarrow> (ast_node \<times> token list) outcome"
  and parse_braced :: "nat \<Rightarrow> body \<Rightarrow> ast_node \<Rightarrow> token list \<Rightarrow> (ast_node \<times> token list) outcome"
where
  "parse_items n b node [] = Raises IndexError"
| "parse_items 0 b node (t # ts) = Exhausted"
| "parse_items (Suc n) b (ASTNode nt nv kids attrs) (t # ts) =
     (if tok_type t = TT_CLOSE_BRACE \<or> tok_type t = TT_EOF
      then Returns (ASTNode nt nv kids attrs, t # ts)
      else if \<not> accepts b (tok_type t)
      then Raises (ParseException (error_at t (unexpected b (tok_value t))))
      else if tok_type t = TT_CONCEPT then
        and_then (parse_braced n ConceptBody (leaf NT_CONCEPT (tok_value t)) ts)
          (\<lambda>(child, rest). parse_items n b (ASTNode nt nv (kids @ [child]) attrs) rest)
      else if tok_type t = TT_RELATION then
        and_then (parse_braced n RelationBody (leaf NT_RELATION (tok_value t)) ts)
          (\<lambda>(child, rest). parse_items n b (ASTNode nt nv (kids @ [child]) attrs) rest)
      else if tok_type t = TT_QUANTIFIER then
        and_then (parse_braced n QuantifierBody (leaf NT_QUANTIFIER (tok_value t)) ts)
          (\<lambda>(child, rest). parse_items n b (ASTNode nt nv (kids @ [child]) attrs) rest)
      else if tok_type t = TT_REFERENCE then
        parse_items n b (ASTNode nt nv (kids @ [leaf NT_REFERENCE (tok_value t)]) attrs) ts
      else
        parse_items n b (ASTNode nt nv (kids @ [leaf NT_PROPERTY (tok_value t)]) attrs) ts)"
| "parse_braced n b node [] = Raises IndexError"
| "parse_braced n b node (t # ts) =
     (if tok_type t = TT_OPEN_BRACE then
        and_then (parse_items n b node ts)
          (\<lambda>(node', rest). and_then (consume_close b rest) (\<lambda>rest'. Returns (node', rest')))
      else Returns (node, t # ts))"

text \<open>\<open>_parse_message\<close>.\<close>

definition parse_message :: "nat \<Rightarrow> token list \<Rightarrow> (ast_node \<times> token list) outcome" where
  "parse_message n ts =
     (case ts of
        [] \<Rightarrow> Raises IndexError
      | t # ts1 \<Rightarrow>
          if tok_type t \<noteq> TT_VERSION
          then Raises (ParseException (error_at t ''Expected version marker (@v1.0)''))
          else
            (case ts1 of
               [] \<Rightarrow> Raises IndexError
             | t1 # ts2 \<Rightarrow>
                 if tok_type t1 \<noteq> TT_OPEN_BRACE
                 then Raises (ParseException (error_at t1
                        (''Expected '' @ [CHR 0x27] @ ''{'' @ [CHR 0x27] @ '' after version marker'')))
                 else
                   and_then
                     (parse_items n MessageBody
                        (ASTNode NT_MESSAGE None [leaf NT_VERSION (tok_value t)] []) ts2)
                     (\<lambda>(message_node, rest).
                        and_then (consume_close MessageBody rest)
                          (\<lambda>rest'. Returns (message_node, rest')))))"

text \<open>
  \<open>Parser.__init__\<close> and \<open>Parser.parse\<close>: whitespace tokens are dropped; the result is the
  root node and \<open>self.errors\<close> after the call. An exception of \<open>_parse_message\<close> is caught,
  its text appended to \<open>self.errors\<close> (where \<open>_error\<close> has put it already), and the node
  \<open>ASTNode(MESSAGE, "Error", [], {"error": text})\<close> returned.
\<close>

definition error_node :: "string \<Rightarrow> ast_node" where
  "error_node e = ASTNode NT_MESSAGE (Some ''Error'') [] [(''error'', e)]"

definition parse :: "token list \<Rightarrow> (ast_node \<times> string list) option" where
  "parse tokens =
     (let ts = filter (\<lambda>t. tok_type t \<noteq> TT_WHITESPACE) tokens in
      case parse_message (length ts) ts of
        Returns (node, rest) \<Rightarrow> Some (node, [])
      | Raises (ParseException e) \<Rightarrow> Some (error_node e, [e, e])
      | Raises IndexError \<Rightarrow>
          Some (error_node ''list index out of range'', [''list index out of range''])
      | Exhausted \<Rightarrow> None)"


section \<open>The intermediate representation\<close>

text \<open>
  An IR value is a Python dictionary with a \<open>type\<close> entry, or \<open>None\<close> (\<open>Null\<close>). The
  constructor is the \<open>type\<close>; a \<open>string option\<close> is an entry that may be absent. The list
  entries (\<open>content\<close>, \<open>children\<close>, \<open>path\<close>) are lists, absent when empty: the builder
  leaves the key out exactly when the list is empty, and optimizer and generator treat
  an absent list as an empty one. \<open>Other t\<close> is the dictionary the builder makes for a
  node of any other type: \<open>type\<close> is the name of \<open>t\<close>, with \<open>value\<close>, \<open>attributes\<close> and
  \<open>children\<close>.
\<close>

datatype ir =
    Null
  | Message "string option" "ir list"
  | Concept "string option" "string option" "ir list"
  | Relation "string option" "ir list"
  | Quantifier "string option" "ir list"
  | Reference "string option" "string list"
  | Other ast_node_type "string option" "(string \<times> string) list" "ir list"

subsection \<open>IRBuilder\<close>

text \<open>\<open>re.search(r'v(\d+\.\d+)', s)\<close>: group 1 of the leftmost match.\<close>

fun search_version :: "string \<Rightarrow> string option" where
  "search_version [] = None"
| "search_version (c # cs) =
     (case match_version (c # cs) of
        Some m \<Rightarrow> Some (drop 1 m)
      | None \<Rightarrow> search_version cs)"

text \<open>The \<open>version\<close> entry of a message: \<open>None\<close> is the \<open>TypeError\<close> of \<open>re.search\<close> on a
  Version node without a value, \<open>Some None\<close> an absent entry.\<close>

definition message_version :: "ast_node list \<Rightarrow> string option option" where
  "message_version kids =
     (case filter (\<lambda>child. node_type child = NT_VERSION) kids of
        [] \<Rightarrow> Some None
      | version_node # _ \<Rightarrow>
          (case node_value version_node of
             None \<Rightarrow> None
           | Some v \<Rightarrow> Some (search_version v)))"

text \<open>\<open>id\<close> and \<open>qualifier\<close> of a concept node (\<open>_build_concept_ir\<close>).\<close>

definition concept_fields :: "string option \<Rightarrow> string option \<times> string option" where
  "concept_fields value =
     (case value of
        None \<Rightarrow> (None, None)
      | Some v \<Rightarrow>
          if v = [] then (None, None)
          else (case str_split (drop 1 v) CHR ''~'' of
                  [] \<Rightarrow> (None, None)
                | [p] \<Rightarrow> (Some p, None)
                | p # q # _ \<Rightarrow> (Some p, Some q)))"

text \<open>\<open>name\<close> of a relation or quantifier node.\<close>

definition name_field :: "string option \<Rightarrow> string option" where
  "name_field value =
     (case value of None \<Rightarrow> None | Some v \<Rightarrow> if v = [] then None else Some (drop 1 v))"

text \<open>\<open>source\<close> and \<open>path\<close> of a reference node.\<close>

definition reference_fields :: "string option \<Rightarrow> string option \<times> string list" where
  "reference_fields value =
     (case value of
        None \<Rightarrow> (None, [])
      | Some v \<Rightarrow>
          if v = [] then (None, [])
          else (case str_split (drop 1 v) CHR ''.'' of
                  [] \<Rightarrow> (None, [])
                | p # ps \<Rightarrow> (Some p, ps)))"

text \<open>
  \<open>_build_node_ir\<close>; \<open>None\<close> is the \<open>TypeError\<close> above. \<open>build_nodes\<close> is the comprehension
  over all children, \<open>build_content\<close> the one of \<open>_build_message_ir\<close>, which leaves the
  Version children out.
\<close>

fun build_node_ir :: "ast_node \<Rightarrow> ir option"
  and build_nodes :: "ast_node list \<Rightarrow> ir list option"
  and build_content :: "ast_node list \<Rightarrow> ir list option"
where
  "build_node_ir (ASTNode t v kids attrs) =
     (if t = NT_MESSAGE then
        (case message_version kids of
           None \<Rightarrow> None
         | Some version \<Rightarrow> map_option (Message version) (build_content kids))
      else if t = NT_CONCEPT then
        map_option (Concept (fst (concept_fields v)) (snd (concept_fields v))) (build_nodes kids)
      else if t = NT_RELATION then map_option (Relation (name_field v)) (build_nodes kids)
      else if t = NT_QUANTIFIER then map_option (Quantifier (name_field v)) (build_nodes kids)
      else if t = NT_REFERENCE then
        Some (Reference (fst (reference_fields v)) (snd (reference_fields v)))
      else map_option (Other t v attrs) (build_nodes kids))"
| "build_nodes [] = Some []"
| "build_nodes (child # rest) =
     (case build_node_ir child of
        None \<Rightarrow> None
      | Some x \<Rightarrow> map_option ((#) x) (build_nodes rest))"
| "build_content [] = Some []"
| "build_content (child # rest) =
     (if node_type child = NT_VERSION then build_content rest
      else (case build_node_ir child of
              None \<Rightarrow> None
            | Some x \<Rightarrow> map_option ((#) x) (build_content rest)))"

subsection \<open>Optimizer\<close>

text \<open>The sort key of \<open>_optimize_message\<close>:
  \<open>(x.get('type', ''), x.get('id', ''), x.get('name', ''))\<close>. (\<open>None\<close> entries are removed
  before the sort; the key of \<open>Null\<close> is never used.)\<close>

definition or_blank :: "string option \<Rightarrow> string" where
  "or_blank s = (case s of None \<Rightarrow> [] | Some x \<Rightarrow> x)"

fun sort_key_of :: "ir \<Rightarrow> string \<times> string \<times> string" where
  "sort_key_of Null = ([], [], [])"
| "sort_key_of (Message version content) = (''Message'', [], [])"
| "sort_key_of (Concept i q kids) = (''Concept'', or_blank i, [])"
| "sort_key_of (Relation n kids) = (''Relation'', [], or_blank n)"
| "sort_key_of (Quantifier n kids) = (''Quantifier'', [], or_blank n)"
| "sort_key_of (Reference s path) = (''Reference'', [], [])"
| "sort_key_of (Other t v attrs kids) = (node_type_name t, [], [])"

fun is_concept :: "ir \<Rightarrow> bool" where
  "is_concept (Concept i q kids) = True"
| "is_concept n = False"

fun is_relation :: "ir \<Rightarrow> bool" where
  "is_relation (Relation n kids) = True"
| "is_relation n = False"

text \<open>The regrouping of \<open>_optimize_concept\<close>: \<open>concepts + relations + others\<close>.\<close>

definition regroup :: "ir list \<Rightarrow> ir list" where
  "regroup kids =
     filter is_concept kids @ filter is_relation kids @
     filter (\<lambda>n. \<not> is_relation n \<and> \<not> is_concept n) kids"

text \<open>
  \<open>id(node)\<close> is the address of the dictionary, a number the program has no hold on.
  The optimizer below is given a function \<open>addr\<close> from positions to addresses:
  \<open>addr p\<close> is the address of the dictionary that ends up at position \<open>p\<close> of the result
  (the path of child indices from the root; the \<open>attributes\<close> dictionary of a node with
  \<open>n\<close> children sits at index \<open>n\<close>). Every statement below holds for all \<open>addr\<close>.
\<close>

definition placeholder :: "string \<Rightarrow> int \<Rightarrow> string option \<Rightarrow> string option" where
  "placeholder prefix a s = (case s of None \<Rightarrow> Some (prefix @ str_of_int a) | Some x \<Rightarrow> Some x)"

text \<open>The generic walk of \<open>_optimize_node\<close> reaches the \<open>attributes\<close> dictionary of an
  \<open>Other\<close> node; a dictionary of strings is left as it is unless it has a \<open>type\<close> entry
  that names one of the three kinds the optimizer handles.\<close>

definition optimize_attributes :: "int \<Rightarrow> (string \<times> string) list \<Rightarrow> (string \<times> string) list" where
  "optimize_attributes a attrs =
     (if map_of attrs ''type'' = Some ''Message'' \<and> map_of attrs ''version'' = None
      then attrs @ [(''version'', ''1.0'')]
      else if map_of attrs ''type'' = Some ''Concept'' \<and> map_of attrs ''id'' = None
      then attrs @ [(''id'', ''concept_'' @ str_of_int a)]
      else if map_of attrs ''type'' = Some ''Relation'' \<and> map_of attrs ''name'' = None
      then attrs @ [(''name'', ''relation_'' @ str_of_int a)]
      else attrs)"

lemma size_list_insort_key [termination_simp]:
  "size_list f (insort_key k x xs) = size_list f (x # xs)"
  by (induction xs) auto

lemma size_list_sort_key [termination_simp]: "size_list f (sort_key k xs) = size_list f xs"
  by (induction xs) (auto simp: size_list_insort_key)

lemma size_list_filter [termination_simp]: "size_list f (filter P xs) \<le> size_list f xs"
  by (induction xs) auto

lemma size_list_regroup [termination_simp]: "size_list f (regroup xs) = size_list f xs"
proof -
  have "\<And>a. is_concept a \<Longrightarrow> \<not> is_relation a" by (case_tac a) auto
  then show ?thesis by (induction xs) (auto simp: regroup_def)
qed

fun optimize_node :: "(nat list \<Rightarrow> int) \<Rightarrow> nat list \<Rightarrow> ir \<Rightarrow> ir"
  and optimize_list :: "(nat list \<Rightarrow> int) \<Rightarrow> nat list \<Rightarrow> nat \<Rightarrow> ir list \<Rightarrow> ir list"
where
  "optimize_node addr p Null = Null"
| "optimize_node addr p (Message version content) =
     Message (Some (case version of None \<Rightarrow> ''1.0'' | Some v \<Rightarrow> v))
       (optimize_list addr p 0 (sort_key sort_key_of (filter (\<lambda>n. n \<noteq> Null) content)))"
| "optimize_node addr p (Concept i q kids) =
     Concept (placeholder ''concept_'' (addr p) i) q
       (optimize_list addr p 0 (regroup (filter (\<lambda>n. n \<noteq> Null) kids)))"
| "optimize_node addr p (Relation n kids) =
     Relation (placeholder ''relation_'' (addr p) n)
       (optimize_list addr p 0 (filter (\<lambda>n. n \<noteq> Null) kids))"
| "optimize_node addr p (Quantifier n kids) = Quantifier n (optimize_list addr p 0 kids)"
| "optimize_node addr p (Reference s path) = Reference s path"
| "optimize_node addr p (Other t v attrs kids) =
     Other t v (optimize_attributes (addr (p @ [length kids])) attrs) (optimize_list addr p 0 kids)"
| "optimize_list addr p i [] = []"
| "optimize_list addr p i (n # ns) =
     optimize_node addr (p @ [i]) n # optimize_list addr p (Suc i) ns"

text \<open>\<open>Optimizer(ir).optimize()\<close>.\<close>

definition optimize :: "(nat list \<Rightarrow> int) \<Rightarrow> ir \<Rightarrow> ir" where
  "optimize addr x = optimize_node addr [] x"

subsection \<open>CodeGenerator\<close>

definition indent :: "nat \<Rightarrow> string \<Rightarrow> string" where
  "indent indent_level code = replicate (indent_level * 2) CHR '' '' @ code"

text \<open>A line of a body: the code of a child, indented, if it is not empty.\<close>

definition body_line :: "nat \<Rightarrow> string \<Rightarrow> string" where
  "body_line indent_level code = (if code = [] then [] else indent indent_level code @ [newline])"

text \<open>
  \<open>_generate_node\<close> at \<open>self.indent_level\<close>, which every method restores before it
  returns. \<open>generate_body\<close> is the loop over the children, run one level deeper.
\<close>

fun generate_node :: "nat \<Rightarrow> ir \<Rightarrow> string"
  and generate_body :: "nat \<Rightarrow> ir list \<Rightarrow> string"
where
  "generate_node lvl Null = []"
| "generate_node lvl (Message version content) =
     ''@v'' @ (case version of None \<Rightarrow> ''1.0'' | Some v \<Rightarrow> v) @ ''{'' @ [newline] @
     generate_body (Suc lvl) content @ ''}''"
| "generate_node lvl (Concept i q kids) =
     (let tag = (if or_blank q \<noteq> [] then ''#'' @ or_blank i @ ''~'' @ or_blank q
                 else ''#'' @ or_blank i)
      in if kids = [] then tag
         else tag @ ''{'' @ [newline] @ generate_body (Suc lvl) kids @ indent lvl ''}'')"
| "generate_node lvl (Relation n kids) =
     (let tag = ''~'' @ or_blank n
      in if kids = [] then tag
         else tag @ ''{'' @ [newline] @ generate_body (Suc lvl) kids @ indent lvl ''}'')"
| "generate_node lvl (Quantifier n kids) =
     (let tag = ''$'' @ or_blank n
      in if kids = [] then tag
         else tag @ ''{'' @ [newline] @ generate_body (Suc lvl) kids @ indent lvl ''}'')"
| "generate_node lvl (Reference s path) =
     (if path = [] then ''^'' @ or_blank s
      else ''^'' @ or_blank s @ ''.'' @ join ''.'' path)"
| "generate_node lvl (Other t v attrs kids) = []"
| "generate_body lvl [] = []"
| "generate_body lvl (n # ns) = body_line lvl (generate_node lvl n) @ generate_body lvl ns"

text \<open>\<open>CodeGenerator(ir).generate()\<close>.\<close>

definition generate :: "ir \<Rightarrow> string" where
  "generate x = generate_node 0 x"

section \<open>The compiler\<close>

text \<open>
  \<open>LLMCLCompiler.compile\<close>: the success flag and the result. \<open>None\<close> is an exception
  that \<open>compile\<close> does not catch (the \<open>TypeError\<close> of the builder).
\<close>

definition compile :: "(nat list \<Rightarrow> int) \<Rightarrow> string \<Rightarrow> registry \<Rightarrow> (bool \<times> string) option" where
  "compile addr source concept_space =
     (case parse (tokenize source) of
        None \<Rightarrow> None
      | Some (ast, parser_errors) \<Rightarrow>
          if parser_errors \<noteq> [] then Some (False, join [newline] parser_errors)
          else
            (case analyze concept_space ast of
               (semantic_errors, semantic_warnings) \<Rightarrow>
                 if semantic_errors \<noteq> [] then Some (False, join [newline] semantic_errors)
                 else
                   (case build_node_ir ast of
                      None \<Rightarrow> None
                    | Some x \<Rightarrow> Some (True, generate (optimize addr x)))))"

section \<open>The wording of the specification, and example values\<close>

text \<open>
  The definitions of this section are not taken from the source. Those named \<open>spec_\<close>
  render a condition as the specification words it, to be compared with what the source
  computes; the others are concrete values for examples.
\<close>

text \<open>The pattern the specification names for a concept value that is checked: the
  sigil, \<open>c\<close>, and a digit next.\<close>

definition spec_numeric_concept_id :: "string \<Rightarrow> bool" where
  "spec_numeric_concept_id v =
     (startswith v ''#c'' \<and> (case drop 2 v of [] \<Rightarrow> False | d # _ \<Rightarrow> is_decimal d))"

definition c142 :: concept_def where
  "c142 = \<lparr>label = ''artificial_intelligence'', defn = ''The theory'',
           related = [''c143'', ''c501'', ''c8901''], hyponyms = [''c501'', ''c9872''],
           hypernyms = [''c140'']\<rparr>"

text \<open>What the specification says the qualifier is: all of the value after its first
  separator.\<close>

definition spec_qualifier :: "string \<Rightarrow> string option" where
  "spec_qualifier v =
     (case dropWhile (\<lambda>c. c \<noteq> CHR ''~'') v of [] \<Rightarrow> None | sep # rest \<Rightarrow> Some rest)"

definition example_buffer :: resolver where
  "example_buffer =
     \<lparr>context_buffer = [[(''n'', PInt 1)], [(''n'', PInt 2)], [(''n'', PInt 3)]],
      max_context_size = 10\<rparr>"


text \<open>One back-patched list: unchanged, or the new id appended where it was missing.\<close>

definition added_once :: "string \<Rightarrow> string list \<Rightarrow> string list \<Rightarrow> bool" where
  "added_once x old new = (new = old \<or> (x \<notin> set old \<and> new = old @ [x]))"

definition c501 :: concept_def where
  "c501 = \<lparr>label = ''machine_learning'', defn = ''Computer algorithms'',
           related = [''c142'', ''c4230''], hyponyms = [''c4230'', ''c4492''],
           hypernyms = [''c142'']\<rparr>"

text \<open>The texts of the four kinds of structural error the parser reports.\<close>

definition violation_message :: "string \<Rightarrow> bool" where
  "violation_message m =
     (m = ''Expected version marker (@v1.0)''
      \<or> m = ''Expected '' @ [CHR 0x27] @ ''{'' @ [CHR 0x27] @ '' after version marker''
      \<or> (\<exists>b. m = expected_close b)
      \<or> (\<exists>b v. m = unexpected b v))"

text \<open>
  What holds of every outcome of the parser's methods, started at node \<open>node\<close> on the
  tokens \<open>ts\<close>: a normal return hands back the node with children added at the end and a
  suffix of the tokens, having consumed no end-of-file token; an error of \<open>_error\<close> carries
  the position of a token of the stream and one of the four texts; an \<open>IndexError\<close> means
  that the stream has no end-of-file token; and the counter of the model is never used up.
\<close>

fun good :: "ast_node \<Rightarrow> token list \<Rightarrow> (ast_node \<times> token list) outcome \<Rightarrow> bool" where
  "good node ts (Returns (node', rest)) =
     (node_type node' = node_type node \<and> node_value node' = node_value node \<and>
      attributes node' = attributes node \<and>
      (\<exists>more. children node' = children node @ more) \<and>
      (\<exists>pre. ts = pre @ rest \<and> list_all (\<lambda>t. tok_type t \<noteq> TT_EOF) pre))"
| "good node ts (Raises (ParseException e)) =
     (\<exists>tok \<in> set ts. \<exists>m. violation_message m \<and> e = error_at tok m)"
| "good node ts (Raises IndexError) = list_all (\<lambda>t. tok_type t \<noteq> TT_EOF) ts"
| "good node ts Exhausted = False"


text \<open>
  The grammar of the specification, on token lists without whitespace:

  \<^item> \<open>Message := Version '{' ContentItem* '}'\<close>
  \<^item> \<open>ContentItem := Concept | Relation | Quantifier | Reference\<close>
  \<^item> \<open>Concept := CONCEPT ('{' (Concept | Relation | Quantifier | Reference)* '}')?\<close>
  \<^item> \<open>Relation := RELATION ('{' (Concept | Relation | Reference)* '}')?\<close>
  \<^item> \<open>Quantifier := QUANTIFIER ('{' (Concept | Quantifier | Property)* '}')?\<close>
  \<^item> \<open>Property := IDENTIFIER\<close>

  The version marker is taken as required, since the error policy names its absence as a
  violation. \<open>spec_admits b\<close> is the set of token types that may start an item of body
  \<open>b\<close>, \<open>spec_body\<close> the body a token may be followed by, \<open>spec_items b\<close> the sequences of
  items of body \<open>b\<close>, and \<open>spec_message\<close> the complete messages.
\<close>

fun spec_admits :: "body \<Rightarrow> token_type \<Rightarrow> bool" where
  "spec_admits MessageBody t =
     (t = TT_CONCEPT \<or> t = TT_RELATION \<or> t = TT_QUANTIFIER \<or> t = TT_REFERENCE)"
| "spec_admits ConceptBody t =
     (t = TT_CONCEPT \<or> t = TT_RELATION \<or> t = TT_QUANTIFIER \<or> t = TT_REFERENCE)"
| "spec_admits RelationBody t = (t = TT_CONCEPT \<or> t = TT_RELATION \<or> t = TT_REFERENCE)"
| "spec_admits QuantifierBody t = (t = TT_CONCEPT \<or> t = TT_QUANTIFIER \<or> t = TT_IDENTIFIER)"

fun spec_body :: "token_type \<Rightarrow> body option" where
  "spec_body TT_CONCEPT = Some ConceptBody"
| "spec_body TT_RELATION = Some RelationBody"
| "spec_body TT_QUANTIFIER = Some QuantifierBody"
| "spec_body t = None"

inductive spec_items :: "body \<Rightarrow> token list \<Rightarrow> bool" where
  none: "spec_items b []"
| single: "spec_admits b (tok_type t) \<Longrightarrow> spec_items b ts \<Longrightarrow> spec_items b (t # ts)"
| braced: "spec_admits b (tok_type t) \<Longrightarrow> spec_body (tok_type t) = Some b' \<Longrightarrow>
           tok_type l = TT_OPEN_BRACE \<Longrightarrow> spec_items b' inner \<Longrightarrow>
           tok_type r = TT_CLOSE_BRACE \<Longrightarrow> spec_items b ts \<Longrightarrow>
           spec_items b (t # l # inner @ r # ts)"

definition spec_message :: "token list \<Rightarrow> bool" where
  "spec_message ts =
     (\<exists>v l inner r. ts = v # l # inner @ [r] \<and> tok_type v = TT_VERSION \<and>
        tok_type l = TT_OPEN_BRACE \<and> spec_items MessageBody inner \<and>
        tok_type r = TT_CLOSE_BRACE)"

text \<open>
  A structural violation, in terms of the grammar alone. A list of tokens is \<open>viable\<close>
  when it can be continued to a complete message. The first violation of a stream is at
  index \<open>i\<close> when the \<open>i\<close> tokens before it are viable and are no longer so with token \<open>i\<close>
  added. (A prefix of a viable list is viable, so a stream has at most one such index.)
\<close>

definition viable :: "token list \<Rightarrow> bool" where
  "viable pre = (\<exists>suffix. spec_message (pre @ suffix))"

definition first_violation :: "token list \<Rightarrow> nat \<Rightarrow> bool" where
  "first_violation ts i = (i < length ts \<and> viable (take i ts) \<and> \<not> viable (take (Suc i) ts))"

text \<open>
  The text of the error for a first violation at index \<open>i\<close>, token \<open>tok\<close>: the version
  marker is missing at index 0 and the opening brace at index 1; behind them, the end of
  the file is a missing closing brace, and every other token is an unexpected token.
\<close>

definition violation_text :: "nat \<Rightarrow> token \<Rightarrow> string \<Rightarrow> bool" where
  "violation_text i tok m =
     (if i = 0 then m = ''Expected version marker (@v1.0)''
      else if i = 1
      then m = ''Expected '' @ [CHR 0x27] @ ''{'' @ [CHR 0x27] @ '' after version marker''
      else if tok_type tok = TT_EOF then (\<exists>b. m = expected_close b)
      else (\<exists>b. m = unexpected b (tok_value tok)))"

text \<open>The same notions for the items of one body, as the proofs about the loops use
  them, and the node type of the child that a token stands for.\<close>

definition items_prefix :: "body \<Rightarrow> token list \<Rightarrow> bool" where
  "items_prefix b pre = (\<exists>suffix. spec_items b (pre @ suffix))"

definition items_violation :: "body \<Rightarrow> token list \<Rightarrow> token \<Rightarrow> bool" where
  "items_violation b pre tok =
     (tok_type tok \<noteq> TT_CLOSE_BRACE \<and> items_prefix b pre \<and>
      (\<forall>suffix. \<not> spec_items b (pre @ tok # suffix)))"

fun child_type :: "token_type \<Rightarrow> ast_node_type" where
  "child_type TT_CONCEPT = NT_CONCEPT"
| "child_type TT_RELATION = NT_RELATION"
| "child_type TT_QUANTIFIER = NT_QUANTIFIER"
| "child_type TT_REFERENCE = NT_REFERENCE"
| "child_type t = NT_PROPERTY"

text \<open>The tokens of the text \<open>@v1.0{#a}}#b{\<close>, and a closing brace.\<close>

definition trailing_tokens :: "token list" where
  "trailing_tokens =
     [Token TT_VERSION ''@v1.0'' 1 1, Token TT_OPEN_BRACE ''{'' 1 6,
      Token TT_CONCEPT ''#a'' 1 7, Token TT_CLOSE_BRACE ''}'' 1 9,
      Token TT_CLOSE_BRACE ''}'' 1 10, Token TT_CONCEPT ''#b'' 1 11,
      Token TT_OPEN_BRACE ''{'' 1 13, Token TT_EOF [] 1 14]"

definition close_brace :: token where
  "close_brace = Token TT_CLOSE_BRACE ''}'' 0 0"

text \<open>
  What an outcome of a loop of the parser means in terms of the grammar. An error of
  \<open>_error\<close> is raised at a token \<open>tok\<close> behind a viable part \<open>pre\<close> of the items of the
  body, with which \<open>pre\<close> is viable no more; an \<open>IndexError\<close> means that all of the tokens
  are a viable part of the items of the body.
\<close>

definition raised_at :: "body \<Rightarrow> token list \<Rightarrow> string \<Rightarrow> bool" where
  "raised_at b ts e =
     (\<exists>pre tok post m. ts = pre @ tok # post \<and> items_violation b pre tok \<and>
        e = error_at tok m \<and> violation_text (Suc (Suc (length pre))) tok m)"

fun explained :: "body \<Rightarrow> token list \<Rightarrow> 'a outcome \<Rightarrow> bool" where
  "explained b ts (Returns x) = True"
| "explained b ts (Raises (ParseException e)) = raised_at b ts e"
| "explained b ts (Raises IndexError) = items_prefix b ts"
| "explained b ts Exhausted = True"

text \<open>The tokens of the text \<open>@v1.0{~r{$q}}\<close>.\<close>

definition quantifier_tokens :: "token list" where
  "quantifier_tokens =
     [Token TT_VERSION ''@v1.0'' 1 1, Token TT_OPEN_BRACE ''{'' 1 6,
      Token TT_RELATION ''~r'' 1 7, Token TT_OPEN_BRACE ''{'' 1 9,
      Token TT_QUANTIFIER ''$q'' 1 10, Token TT_CLOSE_BRACE ''}'' 1 12,
      Token TT_CLOSE_BRACE ''}'' 1 13, Token TT_EOF [] 1 14]"

text \<open>A content item that carries its sort key: a Concept with an \<open>id\<close>, a Relation with a
  \<open>name\<close>, or a node of another kind.\<close>

fun has_key :: "ir \<Rightarrow> bool" where
  "has_key (Concept None q kids) = False"
| "has_key (Relation None kids) = False"
| "has_key n = True"

text \<open>\<open>keyed x\<close>: every content item of every message within \<open>x\<close> carries its sort key.\<close>

fun keyed :: "ir \<Rightarrow> bool" where
  "keyed Null = True"
| "keyed (Message version content) = list_all (\<lambda>n. has_key n \<and> keyed n) content"
| "keyed (Concept i q kids) = list_all keyed kids"
| "keyed (Relation n kids) = list_all keyed kids"
| "keyed (Quantifier n kids) = list_all keyed kids"
| "keyed (Reference s path) = True"
| "keyed (Other t v attrs kids) = list_all keyed kids"

text \<open>\<open>complete x\<close>: the optimizer has no placeholder to make anywhere in \<open>x\<close>.\<close>

definition complete_attributes :: "(string \<times> string) list \<Rightarrow> bool" where
  "complete_attributes attrs =
     (\<not> (map_of attrs ''type'' = Some ''Concept'' \<and> map_of attrs ''id'' = None) \<and>
      \<not> (map_of attrs ''type'' = Some ''Relation'' \<and> map_of attrs ''name'' = None))"

fun complete :: "ir \<Rightarrow> bool" where
  "complete Null = True"
| "complete (Message version content) = list_all complete content"
| "complete (Concept i q kids) = (i \<noteq> None \<and> list_all complete kids)"
| "complete (Relation n kids) = (n \<noteq> None \<and> list_all complete kids)"
| "complete (Quantifier n kids) = list_all complete kids"
| "complete (Reference s path) = True"
| "complete (Other t v attrs kids) = (complete_attributes attrs \<and> list_all complete kids)"

text \<open>\<open>lower(parse(text))\<close> for a text the parser accepts, and
  \<open>print(canonicalize(lower(parse(text))))\<close>.\<close>

definition lower_text :: "string \<Rightarrow> ir option" where
  "lower_text text =
     (case parse (tokenize text) of
        None \<Rightarrow> None
      | Some (ast, parser_errors) \<Rightarrow> if parser_errors = [] then build_node_ir ast else None)"

definition canonical_text :: "(nat list \<Rightarrow> int) \<Rightarrow> string \<Rightarrow> string option" where
  "canonical_text addr text = map_option (\<lambda>x. generate (optimize addr x)) (lower_text text)"


section \<open>Facts about the string functions\<close>

lemma lt10_cases: "d < (10::nat) \<Longrightarrow> d \<in> {0, 1, 2, 3, 4, 5, 6, 7, 8, 9}"
  by auto

lemma digit_value_digit_char: "d < 10 \<Longrightarrow> digit_value (digit_char d) = d"
  by (drule lt10_cases) (auto simp: digit_value_def digit_char_def)

lemma is_decimal_digit_char: "d < 10 \<Longrightarrow> is_decimal (digit_char d)"
  by (drule lt10_cases) (auto simp: is_decimal_def digit_char_def)

lemma string_of_nat_decimal: "list_all is_decimal (string_of_nat n)"
proof (induction n rule: string_of_nat.induct)
  case (1 n)
  show ?case
  proof (cases "n < 10")
    case True
    then show ?thesis by (subst string_of_nat.simps) (simp add: is_decimal_digit_char)
  next
    case False
    with 1 have "list_all is_decimal (string_of_nat (n div 10))" by simp
    with False show ?thesis by (subst string_of_nat.simps) (simp add: is_decimal_digit_char)
  qed
qed

lemma string_of_nat_nonempty: "string_of_nat n \<noteq> []"
  by (subst string_of_nat.simps) simp

lemma int_digits_decimal:
  "list_all is_decimal ds \<Longrightarrow>
   int_digits acc ds = Some (fold (\<lambda>c a. a * 10 + digit_value c) ds acc)"
  by (induction acc ds rule: int_digits.induct) auto

lemma fold_string_of_nat: "fold (\<lambda>c a. a * 10 + digit_value c) (string_of_nat n) 0 = n"
proof (induction n rule: string_of_nat.induct)
  case (1 n)
  show ?case
  proof (cases "n < 10")
    case True
    then show ?thesis by (subst string_of_nat.simps) (simp add: digit_value_digit_char)
  next
    case False
    with 1 have "fold (\<lambda>c a. a * 10 + digit_value c) (string_of_nat (n div 10)) 0 = n div 10"
      by simp
    with False show ?thesis by (subst string_of_nat.simps) (simp add: digit_value_digit_char)
  qed
qed

lemma int_unsigned_string_of_nat: "int_unsigned (string_of_nat n) = Some n"
proof -
  obtain c cs where s: "string_of_nat n = c # cs"
    using string_of_nat_nonempty by (cases "string_of_nat n") auto
  have dec: "list_all is_decimal (c # cs)" using string_of_nat_decimal [of n] s by simp
  have "int_unsigned (c # cs) = int_digits (digit_value c) cs"
    using dec by (simp add: int_unsigned_def)
  also have "\<dots> = Some (fold (\<lambda>c a. a * 10 + digit_value c) (c # cs) 0)"
    using dec by (simp add: int_digits_decimal)
  finally show ?thesis using fold_string_of_nat [of n] s by simp
qed

lemma decimal_not_space: "is_decimal c \<Longrightarrow> \<not> int_space c"
  by (auto simp: is_decimal_def int_space_def)

lemma strip_no_space:
  assumes "list_all (\<lambda>c. \<not> int_space c) s"
  shows "strip s = s"
proof -
  have d: "dropWhile int_space t = t" if "list_all (\<lambda>c. \<not> int_space c) t" for t
    using that by (cases t) auto
  have "list_all (\<lambda>c. \<not> int_space c) (rev s)" using assms by (simp add: list_all_iff)
  then show ?thesis using assms by (simp add: strip_def d)
qed

lemma py_int_string_of_nat: "py_int (string_of_nat n) = Some (int n)"
proof -
  obtain c cs where s: "string_of_nat n = c # cs"
    using string_of_nat_nonempty by (cases "string_of_nat n") auto
  have dec: "list_all is_decimal (c # cs)" using string_of_nat_decimal [of n] s by simp
  then have "list_all (\<lambda>c. \<not> int_space c) (c # cs)"
    by (auto simp: list_all_iff decimal_not_space)
  then have st: "strip (string_of_nat n) = c # cs" using s strip_no_space [of "c # cs"] by simp
  have "c \<noteq> CHR ''-''" "c \<noteq> CHR ''+''" using dec by (auto simp: is_decimal_def)
  then show ?thesis using st int_unsigned_string_of_nat [of n] s by (simp add: py_int_def)
qed

lemma str_split_no_sep: "sep \<notin> set s \<Longrightarrow> str_split s sep = [s]"
  by (induction s) auto

lemma str_split_takeWhile:
  "str_split s sep =
     takeWhile (\<lambda>c. c \<noteq> sep) s #
     (if sep \<in> set s then str_split (drop 1 (dropWhile (\<lambda>c. c \<noteq> sep) s)) sep else [])"
proof (induction s)
  case Nil
  show ?case by simp
next
  case (Cons c s)
  show ?case
  proof (cases "c = sep")
    case True
    then show ?thesis by simp
  next
    case False
    have "str_split (c # s) sep =
        (case str_split s sep of [] \<Rightarrow> [[c]] | p # ps \<Rightarrow> (c # p) # ps)"
      using False by simp
    also have "\<dots> = (c # takeWhile (\<lambda>c. c \<noteq> sep) s) #
        (if sep \<in> set s then str_split (drop 1 (dropWhile (\<lambda>c. c \<noteq> sep) s)) sep else [])"
      by (subst Cons.IH) simp
    finally show ?thesis using False by simp
  qed
qed

lemma decimal_not_dot: "is_decimal c \<Longrightarrow> c \<noteq> CHR ''.''"
  by (auto simp: is_decimal_def)

lemma string_of_nat_no_dot: "CHR ''.'' \<notin> set (string_of_nat n)"
proof
  assume "CHR ''.'' \<in> set (string_of_nat n)"
  then have "is_decimal CHR ''.''"
    using string_of_nat_decimal [of n] by (simp add: list_all_iff)
  then show False using decimal_not_dot by blast
qed

section \<open>Reference resolution\<close>

lemma resolve_prev_digits:
  "fst (resolve_reference self (''^prev'' @ string_of_nat n)) =
     (if n = 0 \<or> n > length (context_buffer self) then None
      else Some (PDict (context_buffer self ! (length (context_buffer self) - n))))"
  using string_of_nat_no_dot [of n]
  by (simp add: resolve_reference_def startswith_def str_split_no_sep py_int_string_of_nat
        py_return_def)

text \<open>
  C3. For every buffer and every \<open>K\<close> with \<open>1 \<le> K \<le> len(buffer)\<close>, resolving \<open>^prev\<close>
  followed by the decimal numeral of \<open>K\<close> returns the \<open>K\<close>-th most recent entry (entry
  \<open>K - 1\<close> of the buffer read backwards); \<open>^prev0\<close> and \<open>^prev\<close> followed by the numeral of
  \<open>len(buffer) + 1\<close> return \<open>None\<close>.
\<close>

theorem resolve_prev_K:
  "(1 \<le> K \<and> K \<le> length (context_buffer self) \<longrightarrow>
      fst (resolve_reference self (''^prev'' @ string_of_nat K)) =
        Some (PDict (rev (context_buffer self) ! (K - 1))))
   \<and> fst (resolve_reference self ''^prev0'') = None
   \<and> fst (resolve_reference self
            (''^prev'' @ string_of_nat (length (context_buffer self) + 1))) = None"
proof -
  have z: "''^prev0'' = ''^prev'' @ string_of_nat 0"
    by (simp add: string_of_nat.simps digit_char_def)
  have r: "rev (context_buffer self) ! (K - 1) =
           context_buffer self ! (length (context_buffer self) - K)"
    if "1 \<le> K" "K \<le> length (context_buffer self)"
    using that by (simp add: rev_nth Suc_diff_le)
  show ?thesis
    unfolding z resolve_prev_digits using r by auto
qed

theorem resolve_prev_K_witness:
  "fst (resolve_reference example_buffer ''^prev2'') = Some (PDict [(''n'', PInt 2)])
   \<and> fst (resolve_reference example_buffer ''^prev0'') = None
   \<and> fst (resolve_reference example_buffer ''^prev4'') = None"
proof -
  have two: "string_of_nat 2 = ''2''" by (simp add: string_of_nat.simps digit_char_def)
  have four: "string_of_nat (length (context_buffer example_buffer) + 1) = ''4''"
    by (simp add: example_buffer_def string_of_nat.simps digit_char_def)
  show ?thesis
    using resolve_prev_K [of 2 example_buffer] two four
    by (simp add: example_buffer_def)
qed

text \<open>
  C10. \<open>resolve_reference\<close> leaves the resolver as it found it, buffer and maximum
  size, for every token and every state, whether it resolves the token or not.
\<close>

theorem resolve_reference_frame:
  "snd (resolve_reference self ref_token) = self
   \<and> context_buffer (snd (resolve_reference self ref_token)) = context_buffer self
   \<and> max_context_size (snd (resolve_reference self ref_token)) = max_context_size self"
proof -
  have "snd (resolve_reference self ref_token) = self"
    by (simp add: resolve_reference_def split: list.splits option.splits)
  then show ?thesis by simp
qed

theorem resolve_reference_frame_witness:
  "snd (resolve_reference example_buffer ''^prev2.n'') = example_buffer
   \<and> fst (resolve_reference example_buffer ''^prev2.n'') = Some (PInt 2)
   \<and> snd (resolve_reference example_buffer ''^prev9'') = example_buffer
   \<and> fst (resolve_reference example_buffer ''^prev9'') = None"
proof -
  have a: "fst (resolve_reference example_buffer ''^prev2.n'') = Some (PInt 2)"
    by (simp add: resolve_reference_def example_buffer_def startswith_def py_int_def strip_def int_space_def
          isspace_def int_unsigned_def is_decimal_def digit_value_def py_return_def)
  have b: "fst (resolve_reference example_buffer ''^prev9'') = None"
    by (simp add: resolve_reference_def example_buffer_def startswith_def py_int_def strip_def int_space_def
          isspace_def int_unsigned_def is_decimal_def digit_value_def py_return_def)
  show ?thesis
    using resolve_reference_frame [of example_buffer "''^prev2.n''"]
      resolve_reference_frame [of example_buffer "''^prev9''"] a b
    by simp
qed

section \<open>Semantic analysis\<close>

text \<open>
  C7 as the specification words it does not hold: the source tests for the two characters
  \<open>#c\<close> only, so a concept named \<open>#cat\<close> is looked up (as \<open>cat\<close>) and reported although no
  digit follows the \<open>c\<close>.
\<close>

theorem unknown_concept_counterexample:
  "warnings (check_concept [(''c142'', c142)] (leaf NT_CONCEPT ''#cat'')
       \<lparr>errors = [], warnings = []\<rparr>) = [''Unknown concept ID: cat'']
   \<and> \<not> spec_numeric_concept_id ''#cat''"
  by (simp add: check_concept_def leaf_def startswith_def add_warning_def
        spec_numeric_concept_id_def is_decimal_def)

text \<open>
  C7, amended. For every Concept node, every dictionary of concepts and every state of the
  analyzer, \<open>_check_concept\<close> appends the warning \<open>Unknown concept ID: \<close> with the value less
  its first character exactly when the value starts with \<open>#c\<close> (whatever follows),
  contains no \<open>~\<close>, the dictionary is not empty and that id is not one of its keys; in
  every other case it changes nothing, and it never adds an error.
\<close>

theorem unknown_concept_warning:
  "check_concept concept_space (ASTNode NT_CONCEPT value kids attrs) self =
     (case value of
        None \<Rightarrow> self
      | Some v \<Rightarrow>
          if startswith v ''#c'' \<and> CHR ''~'' \<notin> set v \<and> concept_space \<noteq> [] \<and>
             drop 1 v \<notin> fst ` set concept_space
          then self\<lparr>warnings := warnings self @ [''Unknown concept ID: '' @ drop 1 v]\<rparr>
          else self)
   \<and> errors (check_concept concept_space (ASTNode NT_CONCEPT value kids attrs) self) =
       errors self"
  by (auto simp: check_concept_def add_warning_def startswith_def Let_def split: option.splits)

theorem unknown_concept_warning_witness:
  "check_concept [(''c142'', c142)] (ASTNode NT_CONCEPT (Some ''#c999'') [] [])
       \<lparr>errors = [], warnings = []\<rparr> =
     \<lparr>errors = [], warnings = [''Unknown concept ID: c999'']\<rparr>
   \<and> check_concept [(''c142'', c142)] (ASTNode NT_CONCEPT (Some ''#c142'') [] [])
       \<lparr>errors = [], warnings = []\<rparr> = \<lparr>errors = [], warnings = []\<rparr>"
  using unknown_concept_warning [of "[(''c142'', c142)]" "Some ''#c999''" "[]" "[]"
      "\<lparr>errors = [], warnings = []\<rparr>"]
    unknown_concept_warning [of "[(''c142'', c142)]" "Some ''#c142''" "[]" "[]"
      "\<lparr>errors = [], warnings = []\<rparr>"]
  by (simp add: startswith_def)

section \<open>Lowering\<close>

text \<open>
  C8 as the specification words it does not hold: the source splits at every separator and
  keeps the second part only, so the qualifier of \<open>#a~b~c\<close> is \<open>b\<close>, not the remainder
  \<open>b~c\<close>.
\<close>

theorem concept_qualifier_counterexample:
  "build_node_ir (leaf NT_CONCEPT ''#a~b~c'') = Some (Concept (Some ''a'') (Some ''b'') [])
   \<and> spec_qualifier ''#a~b~c'' = Some ''b~c''"
  by (simp add: leaf_def concept_fields_def spec_qualifier_def)

text \<open>
  C8, amended. For a Concept node with a non-empty value, \<open>id\<close> is the value less its first
  character up to the first separator; \<open>qualifier\<close> is present exactly when a separator
  occurs there, and is the text between the first separator and the second (or the end of
  the value when there is no second one).
\<close>

theorem concept_id_qualifier:
  "v \<noteq> [] \<longrightarrow>
     build_node_ir (ASTNode NT_CONCEPT (Some v) kids attrs) =
       map_option
         (Concept
            (Some (takeWhile (\<lambda>c. c \<noteq> CHR ''~'') (drop 1 v)))
            (if CHR ''~'' \<in> set (drop 1 v)
             then Some (takeWhile (\<lambda>c. c \<noteq> CHR ''~'')
                          (drop 1 (dropWhile (\<lambda>c. c \<noteq> CHR ''~'') (drop 1 v))))
             else None))
         (build_nodes kids)"
proof -
  have one: "str_split (drop 1 v) CHR ''~'' =
      takeWhile (\<lambda>c. c \<noteq> CHR ''~'') (drop 1 v) #
      (if CHR ''~'' \<in> set (drop 1 v)
       then str_split (drop 1 (dropWhile (\<lambda>c. c \<noteq> CHR ''~'') (drop 1 v))) CHR ''~'' else [])"
    by (rule str_split_takeWhile)
  have two: "str_split s CHR ''~'' =
      takeWhile (\<lambda>c. c \<noteq> CHR ''~'') s #
      (if CHR ''~'' \<in> set s
       then str_split (drop 1 (dropWhile (\<lambda>c. c \<noteq> CHR ''~'') s)) CHR ''~'' else [])" for s
    by (rule str_split_takeWhile)
  show ?thesis
  proof (cases "CHR ''~'' \<in> set (drop 1 v)")
    case True
    then show ?thesis
      using one two [of "drop 1 (dropWhile (\<lambda>c. c \<noteq> CHR ''~'') (drop 1 v))"]
      by (simp add: concept_fields_def)
  next
    case False
    then show ?thesis using one by (simp add: concept_fields_def)
  qed
qed

theorem concept_id_qualifier_witness:
  "build_node_ir (ASTNode NT_CONCEPT (Some ''#c501~approaches'') [] []) =
     Some (Concept (Some ''c501'') (Some ''approaches'') [])
   \<and> build_node_ir (ASTNode NT_CONCEPT (Some ''#topic'') [] []) =
     Some (Concept (Some ''topic'') None [])"
  using concept_id_qualifier [of "''#c501~approaches''" "[]" "[]"]
    concept_id_qualifier [of "''#topic''" "[]" "[]"]
  by simp


section \<open>The concept registry\<close>

lemma map_of_patch_related:
  "map_of (patch_related new_id concepts rel_id) cid =
     (case map_of concepts cid of
        None \<Rightarrow> None
      | Some c \<Rightarrow>
          Some (if cid = rel_id \<and> new_id \<notin> set (related c)
                then c\<lparr>related := related c @ [new_id]\<rparr> else c))"
  by (auto simp: patch_related_def update_conv' split: option.splits)

lemma map_of_patch_hypernyms:
  "map_of (patch_hypernyms new_id concepts hyp_id) cid =
     (case map_of concepts cid of
        None \<Rightarrow> None
      | Some c \<Rightarrow>
          Some (if cid = hyp_id \<and> new_id \<notin> set (hypernyms c)
                then c\<lparr>hypernyms := hypernyms c @ [new_id]\<rparr> else c))"
  by (auto simp: patch_hypernyms_def update_conv' split: option.splits)

lemma map_of_patch_hyponyms:
  "map_of (patch_hyponyms new_id concepts hyp_id) cid =
     (case map_of concepts cid of
        None \<Rightarrow> None
      | Some c \<Rightarrow>
          Some (if cid = hyp_id \<and> new_id \<notin> set (hyponyms c)
                then c\<lparr>hyponyms := hyponyms c @ [new_id]\<rparr> else c))"
  by (auto simp: patch_hyponyms_def update_conv' split: option.splits)

lemma map_of_fold_patch_related:
  "map_of (fold (\<lambda>rel_id c. patch_related new_id c rel_id) ids concepts) cid =
     (case map_of concepts cid of
        None \<Rightarrow> None
      | Some c \<Rightarrow>
          Some (if cid \<in> set ids \<and> new_id \<notin> set (related c)
                then c\<lparr>related := related c @ [new_id]\<rparr> else c))"
proof (induction ids arbitrary: concepts)
  case Nil
  show ?case by (simp split: option.splits)
next
  case (Cons i ids)
  show ?case
    by (cases "map_of concepts cid") (auto simp: Cons.IH map_of_patch_related)
qed

lemma map_of_fold_patch_hypernyms:
  "map_of (fold (\<lambda>hyp_id c. patch_hypernyms new_id c hyp_id) ids concepts) cid =
     (case map_of concepts cid of
        None \<Rightarrow> None
      | Some c \<Rightarrow>
          Some (if cid \<in> set ids \<and> new_id \<notin> set (hypernyms c)
                then c\<lparr>hypernyms := hypernyms c @ [new_id]\<rparr> else c))"
proof (induction ids arbitrary: concepts)
  case Nil
  show ?case by (simp split: option.splits)
next
  case (Cons i ids)
  show ?case
    by (cases "map_of concepts cid") (auto simp: Cons.IH map_of_patch_hypernyms)
qed

lemma map_of_fold_patch_hyponyms:
  "map_of (fold (\<lambda>hyp_id c. patch_hyponyms new_id c hyp_id) ids concepts) cid =
     (case map_of concepts cid of
        None \<Rightarrow> None
      | Some c \<Rightarrow>
          Some (if cid \<in> set ids \<and> new_id \<notin> set (hyponyms c)
                then c\<lparr>hyponyms := hyponyms c @ [new_id]\<rparr> else c))"
proof (induction ids arbitrary: concepts)
  case Nil
  show ?case by (simp split: option.splits)
next
  case (Cons i ids)
  show ?case
    by (cases "map_of concepts cid") (auto simp: Cons.IH map_of_patch_hyponyms)
qed

text \<open>The registry after \<open>add_concept\<close>, entry by entry: the entry stored first (the new
  one under the new id, the old one elsewhere) with each of the three lists patched.\<close>

lemma add_concept_entries:
  assumes "add_concept concepts lbl d rel hypo hyper = Some (new_id, concepts')"
  shows "map_of concepts' cid =
     (case (if cid = new_id
            then Some \<lparr>label = lbl, defn = d, related = or_empty rel,
                       hyponyms = or_empty hypo, hypernyms = or_empty hyper\<rparr>
            else map_of concepts cid) of
        None \<Rightarrow> None
      | Some c \<Rightarrow>
          Some (c\<lparr>related :=
                     (if cid \<in> set (or_empty rel) \<and> new_id \<notin> set (related c)
                      then related c @ [new_id] else related c),
                   hypernyms :=
                     (if cid \<in> set (or_empty hypo) \<and> new_id \<notin> set (hypernyms c)
                      then hypernyms c @ [new_id] else hypernyms c),
                   hyponyms :=
                     (if cid \<in> set (or_empty hyper) \<and> new_id \<notin> set (hyponyms c)
                      then hyponyms c @ [new_id] else hyponyms c)\<rparr>))"
  using assms
  by (auto simp: add_concept_def Let_def map_of_fold_patch_related map_of_fold_patch_hypernyms
        map_of_fold_patch_hyponyms update_conv' split: option.splits)

text \<open>
  C4. After a call of \<open>add_concept\<close> that returns, every concept \<open>cid\<close> of the registry that
  the call names in \<open>related\<close> has the new id in its \<open>related\<close> list, every one named in
  \<open>hyponyms\<close> has it in its \<open>hypernyms\<close> list, and every one named in \<open>hypernyms\<close> has it in
  its \<open>hyponyms\<close> list. The call creates no duplicate: each list of each entry is the list
  the entry had before the patching (for the new concept, the list it was given) or that
  list with the new id appended where it did not occur.
\<close>

theorem add_concept_back_patch:
  assumes "add_concept concepts lbl d rel hypo hyper = Some (new_id, concepts')"
    and "map_of concepts' cid = Some c'"
  shows "(cid \<in> set (or_empty rel) \<longrightarrow> new_id \<in> set (related c'))
       \<and> (cid \<in> set (or_empty hypo) \<longrightarrow> new_id \<in> set (hypernyms c'))
       \<and> (cid \<in> set (or_empty hyper) \<longrightarrow> new_id \<in> set (hyponyms c'))
       \<and> (\<exists>c. (if cid = new_id
                 then c = \<lparr>label = lbl, defn = d, related = or_empty rel,
                            hyponyms = or_empty hypo, hypernyms = or_empty hyper\<rparr>
                 else map_of concepts cid = Some c)
              \<and> label c' = label c \<and> defn c' = defn c
              \<and> added_once new_id (related c) (related c')
              \<and> added_once new_id (hyponyms c) (hyponyms c')
              \<and> added_once new_id (hypernyms c) (hypernyms c'))"
  using add_concept_entries [OF assms(1), of cid] assms(2)
  by (auto simp: added_once_def split: option.splits if_splits)

lemma added_once_distinct: "added_once x old new \<Longrightarrow> distinct old \<Longrightarrow> distinct new"
  by (auto simp: added_once_def)

text \<open>The call returns exactly when some key has a numeric suffix and \<open>int()\<close> accepts every
  suffix that \<open>isdigit()\<close> accepts.\<close>

lemma add_concept_returns:
  "(\<exists>r. add_concept concepts lbl d rel hypo hyper = Some r) \<longleftrightarrow>
     (\<exists>nums. numeric_suffixes (map fst concepts) = Some nums \<and> nums \<noteq> [])"
  by (auto simp: add_concept_def py_max_def Let_def split: option.splits list.splits)

lemma example_add_concept:
  "add_concept [(''c142'', c142), (''c501'', c501)] ''x'' ''def'' (Some [''c142'']) None None =
     Some (''c502'',
       [(''c142'', c142\<lparr>related := [''c143'', ''c501'', ''c8901'', ''c502'']\<rparr>),
        (''c501'', c501),
        (''c502'', \<lparr>label = ''x'', defn = ''def'', related = [''c142''], hyponyms = [],
                    hypernyms = []\<rparr>)])"
  by (simp add: add_concept_def c142_def c501_def str_isdigit_def isdigit_def is_decimal_def
        py_int_def strip_def int_space_def isspace_def int_unsigned_def digit_value_def py_max_def
        str_of_int_def string_of_nat.simps digit_char_def or_empty_def patch_related_def Let_def)

theorem add_concept_back_patch_witness:
  "add_concept [(''c142'', c142), (''c501'', c501)] ''x'' ''def'' (Some [''c142'']) None None =
     Some (''c502'',
       [(''c142'', c142\<lparr>related := [''c143'', ''c501'', ''c8901'', ''c502'']\<rparr>),
        (''c501'', c501),
        (''c502'', \<lparr>label = ''x'', defn = ''def'', related = [''c142''], hyponyms = [],
                    hypernyms = []\<rparr>)])
   \<and> ''c502'' \<in> set (related (c142\<lparr>related := [''c143'', ''c501'', ''c8901'', ''c502'']\<rparr>))
   \<and> added_once ''c502'' (related c142)
        (related (c142\<lparr>related := [''c143'', ''c501'', ''c8901'', ''c502'']\<rparr>))"
  using add_concept_back_patch [OF example_add_concept, of "''c142''"
      "c142\<lparr>related := [''c143'', ''c501'', ''c8901'', ''c502'']\<rparr>"]
    example_add_concept
  by (simp add: or_empty_def)


section \<open>The parser\<close>

lemma good_shift:
  assumes "good node1 rest r"
    and "list_all (\<lambda>t. tok_type t \<noteq> TT_EOF) pre"
    and "node_type node1 = node_type node" "node_value node1 = node_value node"
    and "attributes node1 = attributes node" "\<exists>more. children node1 = children node @ more"
  shows "good node (pre @ rest) r"
proof (cases r)
  case (Returns x)
  obtain node' rest' where x: "x = (node', rest')" by (cases x)
  from assms(1) Returns x obtain more' pre' where
    a: "node_type node' = node_type node1" "node_value node' = node_value node1"
       "attributes node' = attributes node1" "children node' = children node1 @ more'"
       "rest = pre' @ rest'" "list_all (\<lambda>t. tok_type t \<noteq> TT_EOF) pre'"
    by auto
  from assms(6) obtain more where m: "children node1 = children node @ more" by blast
  have "children node' = children node @ (more @ more')" using a(4) m by simp
  moreover have "pre @ rest = (pre @ pre') @ rest'" using a(5) by simp
  moreover have "list_all (\<lambda>t. tok_type t \<noteq> TT_EOF) (pre @ pre')" using a(6) assms(2) by simp
  ultimately show ?thesis using Returns x a(1-3) assms(3-5) by (simp only: good.simps) blast
next
  case (Raises e)
  then show ?thesis using assms(1,2) by (cases e) auto
next
  case Exhausted
  then show ?thesis using assms(1) by simp
qed

lemma good_child:
  assumes r1: "good leafn ts r1"
    and k: "\<And>child rest. r1 = Returns (child, rest) \<Longrightarrow>
              good (ASTNode nt nv (kids @ [child]) attrs) rest (k child rest)"
    and t: "tok_type t \<noteq> TT_EOF"
  shows "good (ASTNode nt nv kids attrs) (t # ts) (and_then r1 (\<lambda>(child, rest). k child rest))"
proof (cases r1)
  case (Returns x)
  obtain child rest where x: "x = (child, rest)" by (cases x)
  from r1 Returns x obtain pre where
    pre: "ts = pre @ rest" "list_all (\<lambda>t. tok_type t \<noteq> TT_EOF) pre" by auto
  have "good (ASTNode nt nv kids attrs) ((t # pre) @ rest) (k child rest)"
    by (rule good_shift [OF k]) (use Returns x pre t in simp_all)
  then show ?thesis using Returns x pre by simp
next
  case (Raises e)
  then show ?thesis using r1 t by (cases e) auto
next
  case Exhausted
  then show ?thesis using r1 by simp
qed

lemma good_leaf:
  assumes "good (ASTNode nt nv (kids @ [child]) attrs) ts r" and "tok_type t \<noteq> TT_EOF"
  shows "good (ASTNode nt nv kids attrs) (t # ts) r"
  using good_shift [OF assms(1), of "[t]" "ASTNode nt nv kids attrs"] assms(2) by simp

lemma good_braced:
  assumes r1: "good node ts r1" and t: "tok_type t = TT_OPEN_BRACE"
  shows "good node (t # ts)
           (and_then r1 (\<lambda>(node', rest).
              and_then (consume_close b rest) (\<lambda>rest'. Returns (node', rest'))))"
proof (cases r1)
  case (Returns x)
  obtain node' rest where x: "x = (node', rest)" by (cases x)
  from r1 Returns x obtain more pre where
    a: "node_type node' = node_type node" "node_value node' = node_value node"
       "attributes node' = attributes node" "children node' = children node @ more"
       "ts = pre @ rest" "list_all (\<lambda>t. tok_type t \<noteq> TT_EOF) pre"
    by auto
  show ?thesis
  proof (cases rest)
    case Nil
    then show ?thesis using Returns x a t by (simp add: consume_close_def)
  next
    case (Cons c rest')
    show ?thesis
    proof (cases "tok_type c = TT_CLOSE_BRACE")
      case True
      have "t # ts = (t # pre @ [c]) @ rest'" using a(5) Cons by simp
      moreover have "list_all (\<lambda>t. tok_type t \<noteq> TT_EOF) (t # pre @ [c])"
        using a(6) t True by simp
      ultimately have "\<exists>pre'. t # ts = pre' @ rest' \<and> list_all (\<lambda>t. tok_type t \<noteq> TT_EOF) pre'"
        by blast
      then show ?thesis using Returns x Cons True a(1-4) by (simp add: consume_close_def)
    next
      case False
      have "c \<in> set (t # ts)" using a(5) Cons by simp
      moreover have "violation_message (expected_close b)"
        by (auto simp: violation_message_def)
      ultimately show ?thesis
        using Returns x Cons False by (auto simp: consume_close_def)
    qed
  qed
next
  case (Raises e)
  then show ?thesis using r1 t by (cases e) auto
next
  case Exhausted
  then show ?thesis using r1 by simp
qed

lemma accepts_cases:
  "accepts b ty \<Longrightarrow>
   ty = TT_CONCEPT \<or> ty = TT_RELATION \<or> ty = TT_QUANTIFIER \<or> ty = TT_REFERENCE \<or>
   ty = TT_IDENTIFIER"
  by (cases b) auto

lemma parse_good:
  "(\<forall>b node ts. length ts \<le> n \<longrightarrow> good node ts (parse_items n b node ts)) \<and>
   (\<forall>b node ts. length ts \<le> n \<longrightarrow> good node ts (parse_braced n b node ts))"
proof (induction n)
  case 0
  show ?case by simp
next
  case (Suc n)
  have items: "good node ts (parse_items (Suc n) b node ts)" if len: "length ts \<le> Suc n"
    for b node ts
  proof (cases ts)
    case Nil
    then show ?thesis by simp
  next
    case (Cons t ts')
    obtain nt nv kids attrs where node: "node = ASTNode nt nv kids attrs" by (cases node)
    have len': "length ts' \<le> n" using len Cons by simp
    have again: "good (ASTNode nt nv (kids @ [child]) attrs) rest
                   (parse_items n b (ASTNode nt nv (kids @ [child]) attrs) rest)"
      if "good leafn ts' (Returns (child, rest))" for leafn child rest
    proof -
      from that obtain pre where "ts' = pre @ rest" by auto
      then have "length rest \<le> n" using len' by simp
      then show ?thesis using Suc.IH by blast
    qed
    show ?thesis
    proof (cases "tok_type t = TT_CLOSE_BRACE \<or> tok_type t = TT_EOF")
      case True
      have "t # ts' = [] @ (t # ts')" by simp
      then show ?thesis using True Cons node by (simp del: append_Nil)
    next
      case stop: False
      show ?thesis
      proof (cases "accepts b (tok_type t)")
        case False
        have "violation_message (unexpected b (tok_value t))"
          by (auto simp: violation_message_def)
        then show ?thesis using stop False Cons node by auto
      next
        case True
        from accepts_cases [OF True] consider
          (c) "tok_type t = TT_CONCEPT" | (r) "tok_type t = TT_RELATION" |
          (q) "tok_type t = TT_QUANTIFIER" | (f) "tok_type t = TT_REFERENCE" |
          (i) "tok_type t = TT_IDENTIFIER"
          by blast
        then show ?thesis
        proof cases
          case c
          have g: "good (leaf NT_CONCEPT (tok_value t)) ts'
                     (parse_braced n ConceptBody (leaf NT_CONCEPT (tok_value t)) ts')"
            using Suc.IH len' by blast
          have "good (ASTNode nt nv kids attrs) (t # ts')
                  (and_then (parse_braced n ConceptBody (leaf NT_CONCEPT (tok_value t)) ts')
                     (\<lambda>(child, rest).
                        parse_items n b (ASTNode nt nv (kids @ [child]) attrs) rest))"
            by (rule good_child [OF g]) (use again g c in auto)
          then show ?thesis using stop True c Cons node by simp
        next
          case r
          have g: "good (leaf NT_RELATION (tok_value t)) ts'
                     (parse_braced n RelationBody (leaf NT_RELATION (tok_value t)) ts')"
            using Suc.IH len' by blast
          have "good (ASTNode nt nv kids attrs) (t # ts')
                  (and_then (parse_braced n RelationBody (leaf NT_RELATION (tok_value t)) ts')
                     (\<lambda>(child, rest).
                        parse_items n b (ASTNode nt nv (kids @ [child]) attrs) rest))"
            by (rule good_child [OF g]) (use again g r in auto)
          then show ?thesis using stop True r Cons node by simp
        next
          case q
          have g: "good (leaf NT_QUANTIFIER (tok_value t)) ts'
                     (parse_braced n QuantifierBody (leaf NT_QUANTIFIER (tok_value t)) ts')"
            using Suc.IH len' by blast
          have "good (ASTNode nt nv kids attrs) (t # ts')
                  (and_then (parse_braced n QuantifierBody (leaf NT_QUANTIFIER (tok_value t)) ts')
                     (\<lambda>(child, rest).
                        parse_items n b (ASTNode nt nv (kids @ [child]) attrs) rest))"
            by (rule good_child [OF g]) (use again g q in auto)
          then show ?thesis using stop True q Cons node by simp
        next
          case f
          have "good (ASTNode nt nv (kids @ [leaf NT_REFERENCE (tok_value t)]) attrs) ts'
                  (parse_items n b
                     (ASTNode nt nv (kids @ [leaf NT_REFERENCE (tok_value t)]) attrs) ts')"
            using Suc.IH len' by blast
          then have "good (ASTNode nt nv kids attrs) (t # ts')
                  (parse_items n b
                     (ASTNode nt nv (kids @ [leaf NT_REFERENCE (tok_value t)]) attrs) ts')"
            by (rule good_leaf) (use f in simp)
          then show ?thesis using stop True f Cons node by simp
        next
          case i
          have "good (ASTNode nt nv (kids @ [leaf NT_PROPERTY (tok_value t)]) attrs) ts'
                  (parse_items n b
                     (ASTNode nt nv (kids @ [leaf NT_PROPERTY (tok_value t)]) attrs) ts')"
            using Suc.IH len' by blast
          then have "good (ASTNode nt nv kids attrs) (t # ts')
                  (parse_items n b
                     (ASTNode nt nv (kids @ [leaf NT_PROPERTY (tok_value t)]) attrs) ts')"
            by (rule good_leaf) (use i in simp)
          then show ?thesis using stop True i Cons node by simp
        qed
      qed
    qed
  qed
  have braced: "good node ts (parse_braced (Suc n) b node ts)" if len: "length ts \<le> Suc n"
    for b node ts
  proof (cases ts)
    case Nil
    then show ?thesis by simp
  next
    case (Cons t ts')
    show ?thesis
    proof (cases "tok_type t = TT_OPEN_BRACE")
      case True
      have "length ts' \<le> Suc n" using len Cons by simp
      then have "good node ts' (parse_items (Suc n) b node ts')"
        by (rule items)
      then have "good node (t # ts')
           (and_then (parse_items (Suc n) b node ts') (\<lambda>(node', rest).
              and_then (consume_close b rest) (\<lambda>rest'. Returns (node', rest'))))"
        using True by (rule good_braced)
      then show ?thesis using True Cons by simp
    next
      case False
      have "t # ts' = [] @ (t # ts')" by simp
      then show ?thesis using False Cons by (simp del: append_Nil)
    qed
  qed
  show ?case using items braced by blast
qed


lemma parse_message_good:
  assumes "length ts \<le> n"
  shows "\<exists>v. good (ASTNode NT_MESSAGE None [leaf NT_VERSION v] []) ts (parse_message n ts)"
proof (cases ts)
  case Nil
  then show ?thesis by (simp add: parse_message_def)
next
  case ts: (Cons t ts1)
  show ?thesis
  proof (cases "tok_type t = TT_VERSION")
    case False
    have "violation_message ''Expected version marker (@v1.0)''"
      by (simp add: violation_message_def)
    then show ?thesis using False ts by (auto simp: parse_message_def)
  next
    case version: True
    show ?thesis
    proof (cases ts1)
      case Nil
      then show ?thesis using version ts by (simp add: parse_message_def)
    next
      case ts1: (Cons t1 ts2)
      show ?thesis
      proof (cases "tok_type t1 = TT_OPEN_BRACE")
        case False
        have "violation_message
                (''Expected '' @ [CHR 0x27] @ ''{'' @ [CHR 0x27] @ '' after version marker'')"
          by (simp add: violation_message_def)
        then show ?thesis using False version ts ts1 by (auto simp: parse_message_def)
      next
        case True
        let ?node = "ASTNode NT_MESSAGE None [leaf NT_VERSION (tok_value t)] []"
        have "length ts2 \<le> n" using assms ts ts1 by simp
        then have "good ?node ts2 (parse_items n MessageBody ?node ts2)"
          using parse_good by blast
        then have "good ?node (t1 # ts2)
            (and_then (parse_items n MessageBody ?node ts2) (\<lambda>(node', rest).
               and_then (consume_close MessageBody rest) (\<lambda>rest'. Returns (node', rest'))))"
          using True by (rule good_braced)
        then have "good ?node ([t] @ (t1 # ts2))
            (and_then (parse_items n MessageBody ?node ts2) (\<lambda>(node', rest).
               and_then (consume_close MessageBody rest) (\<lambda>rest'. Returns (node', rest'))))"
          by (rule good_shift) (use version in simp_all)
        then have "good ?node ts (parse_message n ts)"
          using True version ts ts1 by (simp add: parse_message_def)
        then show ?thesis by blast
      qed
    qed
  qed
qed

text \<open>The parser returns on every token list: the counter it starts with is enough.\<close>

lemma parse_total: "parse tokens \<noteq> None"
proof -
  let ?ts = "filter (\<lambda>t. tok_type t \<noteq> TT_WHITESPACE) tokens"
  obtain v where "good (ASTNode NT_MESSAGE None [leaf NT_VERSION v] []) ?ts
                    (parse_message (length ?ts) ?ts)"
    using parse_message_good [of ?ts "length ?ts"] by auto
  then show ?thesis
    by (cases "parse_message (length ?ts) ?ts")
       (auto simp: parse_def Let_def split: exn.splits)
qed

subsection \<open>The parser and the grammar\<close>

text \<open>The table of the loops is the table of the grammar.\<close>

lemma spec_admits_accepts: "spec_admits b t = accepts b t"
  by (cases b) auto

lemma spec_items_single:
  "accepts b (tok_type t) \<Longrightarrow> spec_items b ts \<Longrightarrow> spec_items b (t # ts)"
  by (simp add: spec_items.single spec_admits_accepts)

lemma spec_items_braced:
  "accepts b (tok_type t) \<Longrightarrow> spec_body (tok_type t) = Some b' \<Longrightarrow>
   tok_type l = TT_OPEN_BRACE \<Longrightarrow> spec_items b' inner \<Longrightarrow> tok_type r = TT_CLOSE_BRACE \<Longrightarrow>
   spec_items b ts \<Longrightarrow> spec_items b (t # l # inner @ r # ts)"
  using spec_items.braced [of b t b' l inner r ts] by (simp add: spec_admits_accepts)

lemma spec_items_induct [consumes 1, case_names none single braced]:
  assumes "spec_items b ts"
    and "\<And>b. P b []"
    and "\<And>b t ts. accepts b (tok_type t) \<Longrightarrow> spec_items b ts \<Longrightarrow> P b ts \<Longrightarrow> P b (t # ts)"
    and "\<And>b t b' l inner r ts. accepts b (tok_type t) \<Longrightarrow> spec_body (tok_type t) = Some b' \<Longrightarrow>
           tok_type l = TT_OPEN_BRACE \<Longrightarrow> spec_items b' inner \<Longrightarrow> P b' inner \<Longrightarrow>
           tok_type r = TT_CLOSE_BRACE \<Longrightarrow> spec_items b ts \<Longrightarrow> P b ts \<Longrightarrow>
           P b (t # l # inner @ r # ts)"
  shows "P b ts"
  using assms(1)
proof (induction rule: spec_items.induct)
  case (none b)
  show ?case by (rule assms(2))
next
  case (single b t ts)
  show ?case using single by (intro assms(3)) (simp_all add: spec_admits_accepts)
next
  case (braced b t b' l inner r ts)
  show ?case using braced by (intro assms(4)) (simp_all add: spec_admits_accepts)
qed

lemma accepts_not_brace:
  "accepts b ty \<Longrightarrow> ty \<noteq> TT_OPEN_BRACE \<and> ty \<noteq> TT_CLOSE_BRACE \<and> ty \<noteq> TT_EOF"
  by (cases b) auto

lemma spec_items_hd: "spec_items b ts \<Longrightarrow> ts \<noteq> [] \<Longrightarrow> accepts b (tok_type (hd ts))"
  by (induction rule: spec_items_induct) auto

lemma spec_items_no_eof: "spec_items b ts \<Longrightarrow> \<forall>t \<in> set ts. tok_type t \<noteq> TT_EOF"
  by (induction rule: spec_items_induct) (auto dest: accepts_not_brace)

text \<open>How a sequence of items can start.\<close>

lemma spec_items_Cons:
  assumes "spec_items b (t # xs)"
  shows "accepts b (tok_type t) \<and>
     (spec_items b xs \<or>
      (\<exists>b' l inner r rest. spec_body (tok_type t) = Some b' \<and> xs = l # inner @ r # rest \<and>
         tok_type l = TT_OPEN_BRACE \<and> spec_items b' inner \<and> tok_type r = TT_CLOSE_BRACE \<and>
         spec_items b rest))"
  using assms by (cases rule: spec_items.cases) (auto simp: spec_admits_accepts)

lemma spec_items_tl:
  assumes "spec_items b (t # xs)"
    and "spec_body (tok_type t) = None \<or> xs = [] \<or> tok_type (hd xs) \<noteq> TT_OPEN_BRACE"
  shows "spec_items b xs"
  using spec_items_Cons [OF assms(1)] assms(2) by (auto simp: spec_items.none)

lemma spec_items_open:
  assumes "spec_items b (t # l # xs)" "tok_type l = TT_OPEN_BRACE"
  shows "\<exists>b' inner r rest. spec_body (tok_type t) = Some b' \<and> xs = inner @ r # rest \<and>
           spec_items b' inner \<and> tok_type r = TT_CLOSE_BRACE \<and> spec_items b rest"
proof -
  have "\<not> spec_items b (l # xs)"
    using spec_items_Cons [of b l xs] assms(2) accepts_not_brace [of b "tok_type l"] by auto
  then show ?thesis using spec_items_Cons [OF assms(1)] by auto
qed

text \<open>One round of the loop at a token that the body admits, in two forms.\<close>

lemma parse_items_opens:
  assumes "accepts b (tok_type t)" "spec_body (tok_type t) = Some b'"
  shows "parse_items (Suc n) b (ASTNode nt nv kids attrs) (t # ts) =
     and_then (parse_braced n b' (leaf (child_type (tok_type t)) (tok_value t)) ts)
       (\<lambda>(child, rest). parse_items n b (ASTNode nt nv (kids @ [child]) attrs) rest)"
  using assms accepts_not_brace [OF assms(1)]
  by (cases "tok_type t") auto

lemma parse_items_token:
  assumes "accepts b (tok_type t)" "spec_body (tok_type t) = None"
  shows "parse_items (Suc n) b (ASTNode nt nv kids attrs) (t # ts) =
     parse_items n b (ASTNode nt nv (kids @ [leaf (child_type (tok_type t)) (tok_value t)]) attrs) ts"
  using assms accepts_not_brace [OF assms(1)] accepts_cases [OF assms(1)]
  by (cases "tok_type t") auto

lemma parse_braced_bare:
  assumes "ts \<noteq> []" "tok_type (hd ts) \<noteq> TT_OPEN_BRACE"
  shows "parse_braced n b node ts = Returns (node, ts)"
  using assms by (cases ts) auto

text \<open>
  The loop reads a sequence of items of its body to the end, whatever follows (provided
  something follows, and not an opening brace, which would belong to the last item), and
  goes on from there with the children the items stand for added to its node.
\<close>

lemma parse_items_prefix:
  assumes "spec_items b inner"
  shows "rest \<noteq> [] \<Longrightarrow> tok_type (hd rest) \<noteq> TT_OPEN_BRACE \<Longrightarrow> length (inner @ rest) \<le> n \<Longrightarrow>
         \<exists>more n'. length rest \<le> n' \<and>
           parse_items n b (ASTNode nt nv kids attrs) (inner @ rest) =
           parse_items n' b (ASTNode nt nv (kids @ more) attrs) rest"
  using assms
proof (induction arbitrary: rest n nt nv kids attrs rule: spec_items_induct)
  case (none b)
  have "parse_items n b (ASTNode nt nv kids attrs) ([] @ rest) =
        parse_items n b (ASTNode nt nv (kids @ []) attrs) rest" by simp
  then have "length rest \<le> n \<and>
        parse_items n b (ASTNode nt nv kids attrs) ([] @ rest) =
        parse_items n b (ASTNode nt nv (kids @ []) attrs) rest"
    using none.prems(3) by simp
  then show ?case by blast
next
  case (single b t ts)
  obtain n0 where n: "n = Suc n0" using single.prems(3) by (cases n) auto
  have len: "length (ts @ rest) \<le> n0" using single.prems(3) n by simp
  have nonempty: "ts @ rest \<noteq> []" using single.prems(1) by simp
  have hd: "tok_type (hd (ts @ rest)) \<noteq> TT_OPEN_BRACE"
  proof (cases ts)
    case Nil
    then show ?thesis using single.prems(2) by simp
  next
    case (Cons a list)
    then have "accepts b (tok_type (hd ts))" using spec_items_hd [OF single.hyps(2)] by simp
    then show ?thesis using Cons accepts_not_brace by fastforce
  qed
  show ?case
  proof (cases "spec_body (tok_type t)")
    case None
    have "parse_items n b (ASTNode nt nv kids attrs) ((t # ts) @ rest) =
          parse_items n0 b
            (ASTNode nt nv (kids @ [leaf (child_type (tok_type t)) (tok_value t)]) attrs)
            (ts @ rest)"
      using parse_items_token [OF single.hyps(1) None] n by simp
    moreover obtain more n' where "length rest \<le> n'"
      "parse_items n0 b
         (ASTNode nt nv (kids @ [leaf (child_type (tok_type t)) (tok_value t)]) attrs)
         (ts @ rest) =
       parse_items n' b
         (ASTNode nt nv ((kids @ [leaf (child_type (tok_type t)) (tok_value t)]) @ more) attrs)
         rest"
      using single.IH [OF single.prems(1,2) len] by blast
    ultimately have "length rest \<le> n' \<and>
        parse_items n b (ASTNode nt nv kids attrs) ((t # ts) @ rest) =
        parse_items n' b
          (ASTNode nt nv (kids @ (leaf (child_type (tok_type t)) (tok_value t) # more)) attrs)
          rest"
      by simp
    then show ?thesis by blast
  next
    case (Some b')
    have "parse_items n b (ASTNode nt nv kids attrs) ((t # ts) @ rest) =
          parse_items n0 b
            (ASTNode nt nv (kids @ [leaf (child_type (tok_type t)) (tok_value t)]) attrs)
            (ts @ rest)"
      using parse_items_opens [OF single.hyps(1) Some] n parse_braced_bare [OF nonempty hd]
      by simp
    moreover obtain more n' where "length rest \<le> n'"
      "parse_items n0 b
         (ASTNode nt nv (kids @ [leaf (child_type (tok_type t)) (tok_value t)]) attrs)
         (ts @ rest) =
       parse_items n' b
         (ASTNode nt nv ((kids @ [leaf (child_type (tok_type t)) (tok_value t)]) @ more) attrs)
         rest"
      using single.IH [OF single.prems(1,2) len] by blast
    ultimately have "length rest \<le> n' \<and>
        parse_items n b (ASTNode nt nv kids attrs) ((t # ts) @ rest) =
        parse_items n' b
          (ASTNode nt nv (kids @ (leaf (child_type (tok_type t)) (tok_value t) # more)) attrs)
          rest"
      by simp
    then show ?thesis by blast
  qed
next
  case (braced b t b' l inner r ts)
  obtain n0 where n: "n = Suc n0" using braced.prems(3) by (cases n) auto
  let ?leaf = "leaf (child_type (tok_type t)) (tok_value t)"
  obtain lt lv where leaf: "?leaf = ASTNode lt lv [] []" by (simp add: leaf_def)
  have len_in: "length (inner @ r # ts @ rest) \<le> n0" using braced.prems(3) n by simp
  obtain more1 n1 where n1: "length (r # ts @ rest) \<le> n1"
    and in1: "parse_items n0 b' (ASTNode lt lv [] []) (inner @ r # ts @ rest) =
              parse_items n1 b' (ASTNode lt lv ([] @ more1) []) (r # ts @ rest)"
    using braced.IH(1) [of "r # ts @ rest" n0 lt lv "[]" "[]"] braced.hyps(5) len_in by auto
  obtain n2 where "n1 = Suc n2" using n1 by (cases n1) auto
  then have in2: "parse_items n0 b' ?leaf (inner @ r # ts @ rest) =
                  Returns (ASTNode lt lv more1 [], r # ts @ rest)"
    using in1 leaf braced.hyps(5) by simp
  have step: "parse_items n b (ASTNode nt nv kids attrs) ((t # l # inner @ r # ts) @ rest) =
              parse_items n0 b (ASTNode nt nv (kids @ [ASTNode lt lv more1 []]) attrs) (ts @ rest)"
    using parse_items_opens [OF braced.hyps(1,2)] n braced.hyps(3,5) in2
    by (simp add: consume_close_def)
  have len: "length (ts @ rest) \<le> n0" using braced.prems(3) n by simp
  obtain more n' where "length rest \<le> n'"
    "parse_items n0 b (ASTNode nt nv (kids @ [ASTNode lt lv more1 []]) attrs) (ts @ rest) =
     parse_items n' b (ASTNode nt nv ((kids @ [ASTNode lt lv more1 []]) @ more) attrs) rest"
    using braced.IH(2) [OF braced.prems(1,2) len] by blast
  then have "length rest \<le> n' \<and>
      parse_items n b (ASTNode nt nv kids attrs) ((t # l # inner @ r # ts) @ rest) =
      parse_items n' b (ASTNode nt nv (kids @ (ASTNode lt lv more1 [] # more)) attrs) rest"
    using step by simp
  then show ?case by blast
qed

text \<open>So the loop returns at the closing brace, or the end of the file, behind a sequence
  of items; and a sequence of items before a closing brace can be read in one way only.\<close>

lemma parse_items_stop:
  assumes "spec_items b inner" "tok_type r = TT_CLOSE_BRACE \<or> tok_type r = TT_EOF"
    and "length (inner @ r # rest) \<le> n"
  shows "\<exists>more. parse_items n b (ASTNode nt nv kids attrs) (inner @ r # rest) =
            Returns (ASTNode nt nv (kids @ more) attrs, r # rest)"
proof -
  obtain more n' where n': "length (r # rest) \<le> n'"
    and eq: "parse_items n b (ASTNode nt nv kids attrs) (inner @ r # rest) =
             parse_items n' b (ASTNode nt nv (kids @ more) attrs) (r # rest)"
    using parse_items_prefix [OF assms(1), of "r # rest" n nt nv kids attrs] assms(2,3) by auto
  obtain n2 where "n' = Suc n2" using n' by (cases n') auto
  then have "parse_items n b (ASTNode nt nv kids attrs) (inner @ r # rest) =
             Returns (ASTNode nt nv (kids @ more) attrs, r # rest)"
    using eq assms(2) by auto
  then show ?thesis by blast
qed

lemma spec_items_unique:
  assumes "spec_items b i1" "spec_items b i2" "i1 @ r1 # x1 = i2 @ r2 # x2"
    and "tok_type r1 = TT_CLOSE_BRACE" "tok_type r2 = TT_CLOSE_BRACE"
  shows "i1 = i2 \<and> r1 = r2 \<and> x1 = x2"
proof -
  let ?n = "length (i1 @ r1 # x1)"
  let ?node = "ASTNode NT_MESSAGE None [] []"
  have len: "length (i2 @ r2 # x2) \<le> ?n"
    using arg_cong [OF assms(3), of length] by simp
  obtain m1 where a: "parse_items ?n b ?node (i1 @ r1 # x1) =
      Returns (ASTNode NT_MESSAGE None ([] @ m1) [], r1 # x1)"
    using parse_items_stop [OF assms(1), of r1 x1 ?n NT_MESSAGE None "[]" "[]"] assms(4)
    by auto
  obtain m2 where b: "parse_items ?n b ?node (i2 @ r2 # x2) =
      Returns (ASTNode NT_MESSAGE None ([] @ m2) [], r2 # x2)"
    using parse_items_stop [OF assms(2) _ len, of NT_MESSAGE None "[]" "[]"] assms(5)
    by auto
  have "parse_items ?n b ?node (i1 @ r1 # x1) = parse_items ?n b ?node (i2 @ r2 # x2)"
    by (simp only: assms(3))
  then have "r1 # x1 = r2 # x2" using a b by simp
  then show ?thesis using assms(3) by simp
qed

lemma and_then_Returns:
  "and_then r k = Returns y \<longleftrightarrow> (\<exists>x. r = Returns x \<and> k x = Returns y)"
  by (cases r) auto

lemma consume_close_Returns:
  "consume_close b ts = Returns rest \<longleftrightarrow> (\<exists>r. ts = r # rest \<and> tok_type r = TT_CLOSE_BRACE)"
  by (auto simp: consume_close_def split: list.splits)

text \<open>What the parser has read when it returns is a sequence of items of the grammar.\<close>

lemma parse_sound:
  "(\<forall>b node ts node' rest. parse_items n b node ts = Returns (node', rest) \<longrightarrow>
      (\<exists>inner. ts = inner @ rest \<and> spec_items b inner \<and> rest \<noteq> [] \<and>
         (tok_type (hd rest) = TT_CLOSE_BRACE \<or> tok_type (hd rest) = TT_EOF))) \<and>
   (\<forall>b node ts node' rest. parse_braced n b node ts = Returns (node', rest) \<longrightarrow>
      (ts = rest \<and> ts \<noteq> [] \<and> tok_type (hd ts) \<noteq> TT_OPEN_BRACE) \<or>
      (\<exists>l inner r. ts = l # inner @ r # rest \<and> tok_type l = TT_OPEN_BRACE \<and>
         spec_items b inner \<and> tok_type r = TT_CLOSE_BRACE))"
proof (induction n)
  case 0
  have a: "parse_items 0 b node ts \<noteq> Returns x" for b node ts x
    by (cases ts) auto
  have "(ts = rest \<and> ts \<noteq> [] \<and> tok_type (hd ts) \<noteq> TT_OPEN_BRACE)"
    if "parse_braced 0 b node ts = Returns (node', rest)" for b node ts node' rest
    using that a by (cases ts) (auto simp: and_then_Returns split: if_splits)
  then show ?case using a by blast
next
  case (Suc n)
  have items: "\<exists>inner. ts = inner @ rest \<and> spec_items b inner \<and> rest \<noteq> [] \<and>
         (tok_type (hd rest) = TT_CLOSE_BRACE \<or> tok_type (hd rest) = TT_EOF)"
    if ret: "parse_items m b node ts = Returns (node', rest)" and m: "m = Suc n"
    for m b node ts node' rest
  proof (cases ts)
    case Nil
    then show ?thesis using ret by simp
  next
    case (Cons t ts')
    obtain nt nv kids attrs where node: "node = ASTNode nt nv kids attrs" by (cases node)
    show ?thesis
    proof (cases "tok_type t = TT_CLOSE_BRACE \<or> tok_type t = TT_EOF")
      case True
      then have "rest = t # ts'" using ret m Cons node by auto
      then have "ts = [] @ rest \<and> spec_items b [] \<and> rest \<noteq> [] \<and>
         (tok_type (hd rest) = TT_CLOSE_BRACE \<or> tok_type (hd rest) = TT_EOF)"
        using True Cons by (simp add: spec_items.none)
      then show ?thesis by blast
    next
      case stop: False
      have acc: "accepts b (tok_type t)"
        using ret m Cons node stop by (auto split: if_splits)
      show ?thesis
      proof (cases "spec_body (tok_type t)")
        case None
        have "parse_items n b
               (ASTNode nt nv (kids @ [leaf (child_type (tok_type t)) (tok_value t)]) attrs) ts' =
              Returns (node', rest)"
          using ret m Cons node parse_items_token [OF acc None] by simp
        then obtain inner where i: "ts' = inner @ rest" "spec_items b inner" "rest \<noteq> []"
          "tok_type (hd rest) = TT_CLOSE_BRACE \<or> tok_type (hd rest) = TT_EOF"
          using Suc.IH by blast
        have "spec_items b (t # inner)" using acc i(2) by (rule spec_items_single)
        then have "ts = (t # inner) @ rest \<and> spec_items b (t # inner) \<and> rest \<noteq> [] \<and>
           (tok_type (hd rest) = TT_CLOSE_BRACE \<or> tok_type (hd rest) = TT_EOF)"
          using i Cons by simp
        then show ?thesis by blast
      next
        case (Some b')
        have "and_then (parse_braced n b' (leaf (child_type (tok_type t)) (tok_value t)) ts')
                (\<lambda>(child, rest). parse_items n b (ASTNode nt nv (kids @ [child]) attrs) rest) =
              Returns (node', rest)"
          using ret m Cons node parse_items_opens [OF acc Some] by simp
        then obtain child r1 where
          c: "parse_braced n b' (leaf (child_type (tok_type t)) (tok_value t)) ts' =
                Returns (child, r1)"
          and k: "parse_items n b (ASTNode nt nv (kids @ [child]) attrs) r1 = Returns (node', rest)"
          by (auto simp: and_then_Returns)
        from k obtain inner2 where i: "r1 = inner2 @ rest" "spec_items b inner2" "rest \<noteq> []"
          "tok_type (hd rest) = TT_CLOSE_BRACE \<or> tok_type (hd rest) = TT_EOF"
          using Suc.IH by blast
        from c Suc.IH consider
          (bare) "ts' = r1" |
          (body) l inner1 r where "ts' = l # inner1 @ r # r1" "tok_type l = TT_OPEN_BRACE"
            "spec_items b' inner1" "tok_type r = TT_CLOSE_BRACE"
          by blast
        then show ?thesis
        proof cases
          case bare
          have "spec_items b (t # inner2)" using acc i(2) by (rule spec_items_single)
          then have "ts = (t # inner2) @ rest \<and> spec_items b (t # inner2) \<and> rest \<noteq> [] \<and>
             (tok_type (hd rest) = TT_CLOSE_BRACE \<or> tok_type (hd rest) = TT_EOF)"
            using i Cons bare by simp
          then show ?thesis by blast
        next
          case body
          have "spec_items b (t # l # inner1 @ r # inner2)"
            using acc Some body(2,3,4) i(2) by (rule spec_items_braced)
          then have "ts = (t # l # inner1 @ r # inner2) @ rest \<and>
             spec_items b (t # l # inner1 @ r # inner2) \<and> rest \<noteq> [] \<and>
             (tok_type (hd rest) = TT_CLOSE_BRACE \<or> tok_type (hd rest) = TT_EOF)"
            using i Cons body(1) by simp
          then show ?thesis by blast
        qed
      qed
    qed
  qed
  have braced: "(ts = rest \<and> ts \<noteq> [] \<and> tok_type (hd ts) \<noteq> TT_OPEN_BRACE) \<or>
      (\<exists>l inner r. ts = l # inner @ r # rest \<and> tok_type l = TT_OPEN_BRACE \<and>
         spec_items b inner \<and> tok_type r = TT_CLOSE_BRACE)"
    if ret: "parse_braced (Suc n) b node ts = Returns (node', rest)" for b node ts node' rest
  proof (cases ts)
    case Nil
    then show ?thesis using ret by simp
  next
    case (Cons t ts')
    show ?thesis
    proof (cases "tok_type t = TT_OPEN_BRACE")
      case False
      then show ?thesis using ret Cons by auto
    next
      case True
      then obtain node1 r1 where
        p: "parse_items (Suc n) b node ts' = Returns (node1, r1)"
        and c: "consume_close b r1 = Returns rest"
        using ret Cons by (auto simp: and_then_Returns)
      from p obtain inner where i: "ts' = inner @ r1" "spec_items b inner"
        using items by blast
      from c obtain r where r: "r1 = r # rest" "tok_type r = TT_CLOSE_BRACE"
        by (auto simp: consume_close_Returns)
      have "ts = t # inner @ r # rest" using Cons i(1) r(1) by simp
      then show ?thesis using True i(2) r(2) by blast
    qed
  qed
  show ?case using items braced by blast
qed

lemma parse_items_sound:
  assumes "parse_items n b node ts = Returns (node', rest)"
  shows "\<exists>inner c rest'. ts = inner @ c # rest' \<and> rest = c # rest' \<and> spec_items b inner \<and>
           (tok_type c = TT_CLOSE_BRACE \<or> tok_type c = TT_EOF)"
proof -
  obtain inner where i: "ts = inner @ rest" "spec_items b inner" "rest \<noteq> []"
    "tok_type (hd rest) = TT_CLOSE_BRACE \<or> tok_type (hd rest) = TT_EOF"
    using parse_sound assms by blast
  obtain c rest' where "rest = c # rest'" using i(3) by (cases rest) auto
  then show ?thesis using i by auto
qed

subsection \<open>Viable prefixes\<close>

lemma items_prefix_Nil: "items_prefix b []"
  unfolding items_prefix_def using spec_items.none [of b] by (intro exI [of _ "[]"]) simp

lemma items_prefix_items: "spec_items b inner \<Longrightarrow> items_prefix b inner"
  unfolding items_prefix_def by (intro exI [of _ "[]"]) simp

lemma items_prefix_single:
  assumes "accepts b (tok_type t)" "items_prefix b pre"
  shows "items_prefix b (t # pre)"
proof -
  obtain s where "spec_items b (pre @ s)" using assms(2) unfolding items_prefix_def by blast
  then have "spec_items b ((t # pre) @ s)" using spec_items_single [OF assms(1)] by simp
  then show ?thesis unfolding items_prefix_def by blast
qed

lemma items_prefix_open:
  assumes "accepts b (tok_type t)" "spec_body (tok_type t) = Some b'"
    and "tok_type l = TT_OPEN_BRACE" "items_prefix b' pre"
  shows "items_prefix b (t # l # pre)"
proof -
  obtain s where s: "spec_items b' (pre @ s)" using assms(4) unfolding items_prefix_def by blast
  have "tok_type close_brace = TT_CLOSE_BRACE" by (simp add: close_brace_def)
  then have "spec_items b (t # l # (pre @ s) @ close_brace # [])"
    using spec_items_braced [OF assms(1,2,3) s _ spec_items.none] by blast
  then have "spec_items b ((t # l # pre) @ (s @ [close_brace]))" by simp
  then show ?thesis unfolding items_prefix_def by blast
qed

lemma items_prefix_closed:
  assumes "accepts b (tok_type t)" "spec_body (tok_type t) = Some b'"
    and "tok_type l = TT_OPEN_BRACE" "spec_items b' inner" "tok_type c = TT_CLOSE_BRACE"
    and "items_prefix b pre"
  shows "items_prefix b (t # l # inner @ c # pre)"
proof -
  obtain s where s: "spec_items b (pre @ s)" using assms(6) unfolding items_prefix_def by blast
  have "spec_items b (t # l # inner @ c # (pre @ s))"
    using assms(1,2,3,4,5) s by (rule spec_items_braced)
  then have "spec_items b ((t # l # inner @ c # pre) @ s)" by simp
  then show ?thesis unfolding items_prefix_def by blast
qed

lemma violation_text_behind:
  "violation_text (Suc (Suc i)) tok m = violation_text (Suc (Suc j)) tok m"
  by (simp add: violation_text_def)

text \<open>The four ways in which the error of a loop comes about.\<close>

lemma raised_at_unexpected:
  assumes "\<not> accepts b (tok_type t)" "tok_type t \<noteq> TT_CLOSE_BRACE" "tok_type t \<noteq> TT_EOF"
  shows "raised_at b (t # ts) (error_at t (unexpected b (tok_value t)))"
proof -
  have "\<not> spec_items b ([] @ t # suffix)" for suffix
    using spec_items_Cons [of b t suffix] assms(1) by auto
  then have "items_violation b [] t"
    using assms(2) by (simp add: items_violation_def items_prefix_Nil)
  moreover have "violation_text (Suc (Suc (length ([] :: token list)))) t (unexpected b (tok_value t))"
    using assms(3) by (auto simp: violation_text_def)
  moreover have "t # ts = [] @ t # ts" by simp
  ultimately show ?thesis unfolding raised_at_def by blast
qed

lemma raised_at_eof:
  assumes "accepts b (tok_type t)" "spec_body (tok_type t) = Some b'"
    and "tok_type l = TT_OPEN_BRACE" "spec_items b' inner" "tok_type c = TT_EOF"
  shows "raised_at b (t # l # inner @ c # rest) (error_at c (expected_close b'))"
proof -
  have "\<not> spec_items b ((t # l # inner) @ c # suffix)" for suffix
  proof
    assume "spec_items b ((t # l # inner) @ c # suffix)"
    then have "tok_type c \<noteq> TT_EOF" using spec_items_no_eof by fastforce
    then show False using assms(5) by simp
  qed
  moreover have "items_prefix b (t # l # inner)"
    using assms(1,2,3) items_prefix_items [OF assms(4)] by (rule items_prefix_open)
  ultimately have "items_violation b (t # l # inner) c"
    using assms(5) by (simp add: items_violation_def)
  moreover have "violation_text (Suc (Suc (length (t # l # inner)))) c (expected_close b')"
    using assms(5) by (auto simp: violation_text_def)
  moreover have "t # l # inner @ c # rest = (t # l # inner) @ c # rest" by simp
  ultimately show ?thesis unfolding raised_at_def by blast
qed

lemma hd_middle: "hd (pre @ tok # x) = hd (pre @ tok # y)"
  by (cases pre) auto

lemma explained_single:
  assumes "accepts b (tok_type t)"
    and "spec_body (tok_type t) = None \<or> ts = [] \<or> tok_type (hd ts) \<noteq> TT_OPEN_BRACE"
    and "explained b ts r"
  shows "explained b (t # ts) r"
proof (cases r)
  case (Returns x)
  then show ?thesis by simp
next
  case (Raises ex)
  show ?thesis
  proof (cases ex)
    case (ParseException e)
    then obtain pre tok post m where
      ts: "ts = pre @ tok # post" and v: "items_violation b pre tok"
      and e: "e = error_at tok m" and m: "violation_text (Suc (Suc (length pre))) tok m"
      using assms(3) Raises by (auto simp: raised_at_def)
    have "\<not> spec_items b ((t # pre) @ tok # suffix)" for suffix
    proof
      assume a: "spec_items b ((t # pre) @ tok # suffix)"
      have "spec_body (tok_type t) = None \<or> pre @ tok # suffix = [] \<or>
            tok_type (hd (pre @ tok # suffix)) \<noteq> TT_OPEN_BRACE"
        using assms(2) ts hd_middle [of pre tok suffix post] by auto
      then have "spec_items b (pre @ tok # suffix)"
        using spec_items_tl [of b t "pre @ tok # suffix"] a by simp
      then show False using v by (simp add: items_violation_def)
    qed
    moreover have "items_prefix b (t # pre)"
      using assms(1) v by (simp add: items_violation_def items_prefix_single)
    ultimately have "items_violation b (t # pre) tok"
      using v by (simp add: items_violation_def)
    moreover have "violation_text (Suc (Suc (length (t # pre)))) tok m"
      using m violation_text_behind by blast
    moreover have "t # ts = (t # pre) @ tok # post" using ts by simp
    ultimately have "raised_at b (t # ts) e" using e unfolding raised_at_def by blast
    then show ?thesis using Raises ParseException by simp
  next
    case IndexError
    then show ?thesis using assms(1,3) Raises by (simp add: items_prefix_single)
  qed
next
  case Exhausted
  then show ?thesis by simp
qed

lemma explained_open:
  assumes "accepts b (tok_type t)" "spec_body (tok_type t) = Some b'"
    and "tok_type l = TT_OPEN_BRACE" "explained b' ts r"
    and unread: "\<And>inner c x. spec_items b' inner \<Longrightarrow> tok_type c = TT_CLOSE_BRACE \<Longrightarrow>
                   ts \<noteq> inner @ c # x"
  shows "explained b (t # l # ts) r"
proof (cases r)
  case (Returns x)
  then show ?thesis by simp
next
  case (Raises ex)
  show ?thesis
  proof (cases ex)
    case (ParseException e)
    then obtain pre tok post m where
      ts: "ts = pre @ tok # post" and v: "items_violation b' pre tok"
      and e: "e = error_at tok m" and m: "violation_text (Suc (Suc (length pre))) tok m"
      using assms(4) Raises by (auto simp: raised_at_def)
    have tok: "tok_type tok \<noteq> TT_CLOSE_BRACE" and no: "\<And>s. \<not> spec_items b' (pre @ tok # s)"
      using v by (simp_all add: items_violation_def)
    have "\<not> spec_items b ((t # l # pre) @ tok # suffix)" for suffix
    proof
      assume "spec_items b ((t # l # pre) @ tok # suffix)"
      then have a: "spec_items b (t # l # (pre @ tok # suffix))" by simp
      obtain b'' inner c rest where
        sb: "spec_body (tok_type t) = Some b''"
        and eq: "pre @ tok # suffix = inner @ c # rest" and inner'': "spec_items b'' inner"
        and c: "tok_type c = TT_CLOSE_BRACE"
        using spec_items_open [OF a assms(3)] by blast
      have inner: "spec_items b' inner" using sb assms(2) inner'' by simp
      obtain us where
        "(pre = inner @ us \<and> us @ tok # suffix = c # rest) \<or>
         (pre @ us = inner \<and> tok # suffix = us @ c # rest)"
        using eq [unfolded append_eq_append_conv2] by blast
      then consider
        (left) "pre = inner @ us" "us @ tok # suffix = c # rest" |
        (right) "pre @ us = inner" "tok # suffix = us @ c # rest"
        by blast
      then show False
      proof cases
        case left
        show False
        proof (cases us)
          case Nil
          then show False using left(2) tok c by simp
        next
          case (Cons u us')
          then have "ts = inner @ c # (us' @ tok # post)" using left ts by simp
          then show False using unread [OF inner c] by blast
        qed
      next
        case right
        show False
        proof (cases us)
          case Nil
          then show False using right(2) tok c by simp
        next
          case (Cons u us')
          then have "inner = pre @ tok # us'" using right by auto
          then show False using inner no by blast
        qed
      qed
    qed
    moreover have "items_prefix b (t # l # pre)"
      using assms(1,2,3) v by (simp add: items_violation_def items_prefix_open)
    ultimately have "items_violation b (t # l # pre) tok"
      using tok by (simp add: items_violation_def)
    moreover have "violation_text (Suc (Suc (length (t # l # pre)))) tok m"
      using m violation_text_behind by blast
    moreover have "t # l # ts = (t # l # pre) @ tok # post" using ts by simp
    ultimately have "raised_at b (t # l # ts) e" using e unfolding raised_at_def by blast
    then show ?thesis using Raises ParseException by simp
  next
    case IndexError
    then show ?thesis using assms(1,2,3,4) Raises by (simp add: items_prefix_open)
  qed
next
  case Exhausted
  then show ?thesis by simp
qed

lemma explained_closed:
  assumes "accepts b (tok_type t)" "spec_body (tok_type t) = Some b'"
    and "tok_type l = TT_OPEN_BRACE" "spec_items b' inner" "tok_type c = TT_CLOSE_BRACE"
    and "explained b rest r"
  shows "explained b (t # l # inner @ c # rest) r"
proof (cases r)
  case (Returns x)
  then show ?thesis by simp
next
  case (Raises ex)
  show ?thesis
  proof (cases ex)
    case (ParseException e)
    then obtain pre tok post m where
      ts: "rest = pre @ tok # post" and v: "items_violation b pre tok"
      and e: "e = error_at tok m" and m: "violation_text (Suc (Suc (length pre))) tok m"
      using assms(6) Raises by (auto simp: raised_at_def)
    have tok: "tok_type tok \<noteq> TT_CLOSE_BRACE" and no: "\<And>s. \<not> spec_items b (pre @ tok # s)"
      using v by (simp_all add: items_violation_def)
    have "\<not> spec_items b ((t # l # inner @ c # pre) @ tok # suffix)" for suffix
    proof
      assume "spec_items b ((t # l # inner @ c # pre) @ tok # suffix)"
      then have a: "spec_items b (t # l # (inner @ c # pre @ tok # suffix))" by simp
      obtain b'' inner' c' rest' where
        sb: "spec_body (tok_type t) = Some b''"
        and eq: "inner @ c # pre @ tok # suffix = inner' @ c' # rest'"
        and inner'': "spec_items b'' inner'" and c': "tok_type c' = TT_CLOSE_BRACE"
        and rest': "spec_items b rest'"
        using spec_items_open [OF a assms(3)] by blast
      have inner': "spec_items b' inner'" using sb assms(2) inner'' by simp
      have "pre @ tok # suffix = rest'"
        using spec_items_unique [OF assms(4) inner' eq assms(5) c'] by simp
      then show False using rest' no by blast
    qed
    moreover have "items_prefix b (t # l # inner @ c # pre)"
      using assms(1,2,3,4,5) v by (simp add: items_violation_def items_prefix_closed)
    ultimately have "items_violation b (t # l # inner @ c # pre) tok"
      using tok by (simp add: items_violation_def)
    moreover have "violation_text (Suc (Suc (length (t # l # inner @ c # pre)))) tok m"
      using m violation_text_behind by blast
    moreover have "t # l # inner @ c # rest = (t # l # inner @ c # pre) @ tok # post"
      using ts by simp
    ultimately have "raised_at b (t # l # inner @ c # rest) e"
      using e unfolding raised_at_def by blast
    then show ?thesis using Raises ParseException by simp
  next
    case IndexError
    then show ?thesis using assms Raises by (simp add: items_prefix_closed)
  qed
next
  case Exhausted
  then show ?thesis by simp
qed

text \<open>
  Every error of a loop of the parser is raised at the first token with which the tokens
  read so far are no longer the beginning of a sequence of items of its body.
\<close>

lemma parse_items_explained:
  "length ts \<le> n \<Longrightarrow> explained b ts (parse_items n b node ts)"
proof (induction n arbitrary: b node ts)
  case 0
  then show ?case by (simp add: items_prefix_Nil)
next
  case (Suc n)
  show ?case
  proof (cases ts)
    case Nil
    then show ?thesis by (simp add: items_prefix_Nil)
  next
    case (Cons t ts')
    obtain nt nv kids attrs where node: "node = ASTNode nt nv kids attrs" by (cases node)
    have len': "length ts' \<le> n" using Suc.prems Cons by simp
    show ?thesis
    proof (cases "tok_type t = TT_CLOSE_BRACE \<or> tok_type t = TT_EOF")
      case True
      then show ?thesis using Cons node by auto
    next
      case stop: False
      show ?thesis
      proof (cases "accepts b (tok_type t)")
        case False
        have "raised_at b (t # ts') (error_at t (unexpected b (tok_value t)))"
          using False stop by (intro raised_at_unexpected) simp_all
        then show ?thesis using False stop Cons node by simp
      next
        case acc: True
        show ?thesis
        proof (cases "spec_body (tok_type t)")
          case None
          have "explained b (t # ts')
                  (parse_items n b
                     (ASTNode nt nv (kids @ [leaf (child_type (tok_type t)) (tok_value t)]) attrs)
                     ts')"
            using acc None Suc.IH [OF len'] by (intro explained_single) simp_all
          then show ?thesis using Cons node parse_items_token [OF acc None] by simp
        next
          case (Some b')
          let ?leaf = "leaf (child_type (tok_type t)) (tok_value t)"
          have unfold: "parse_items (Suc n) b node ts =
              and_then (parse_braced n b' ?leaf ts')
                (\<lambda>(child, rest). parse_items n b (ASTNode nt nv (kids @ [child]) attrs) rest)"
            using Cons node parse_items_opens [OF acc Some] by simp
          show ?thesis
          proof (cases ts')
            case Nil
            have "items_prefix b [t]"
              using acc items_prefix_Nil by (rule items_prefix_single)
            then show ?thesis using unfold Nil Cons by simp
          next
            case ts': (Cons l ts1)
            show ?thesis
            proof (cases "tok_type l = TT_OPEN_BRACE")
              case False
              have "explained b (t # ts')
                      (parse_items n b (ASTNode nt nv (kids @ [?leaf]) attrs) ts')"
                using acc False ts' Suc.IH [OF len'] by (intro explained_single) simp_all
              then show ?thesis using unfold ts' False Cons by simp
            next
              case brace: True
              have len1: "length ts1 \<le> n" using len' ts' by simp
              have inner: "explained b' ts1 (parse_items n b' ?leaf ts1)"
                using Suc.IH [OF len1] .
              have braced: "parse_braced n b' ?leaf ts' =
                  and_then (parse_items n b' ?leaf ts1)
                    (\<lambda>(node', rest). and_then (consume_close b' rest)
                       (\<lambda>rest'. Returns (node', rest')))"
                using ts' brace by simp
              show ?thesis
              proof (cases "parse_items n b' ?leaf ts1")
                case (Returns x)
                obtain child r1 where x: "x = (child, r1)" by (cases x)
                obtain items c rest where
                  ts1: "ts1 = items @ c # rest" and r1: "r1 = c # rest"
                  and items: "spec_items b' items"
                  and c: "tok_type c = TT_CLOSE_BRACE \<or> tok_type c = TT_EOF"
                  using parse_items_sound [of n b' ?leaf ts1 child r1] Returns x by auto
                show ?thesis
                proof (cases "tok_type c = TT_CLOSE_BRACE")
                  case True
                  have "length rest \<le> n" using len1 ts1 by simp
                  then have "explained b rest
                      (parse_items n b (ASTNode nt nv (kids @ [child]) attrs) rest)"
                    by (rule Suc.IH)
                  then have "explained b (t # l # items @ c # rest)
                      (parse_items n b (ASTNode nt nv (kids @ [child]) attrs) rest)"
                    using acc Some brace items True by (intro explained_closed)
                  moreover have "parse_items (Suc n) b node ts =
                      parse_items n b (ASTNode nt nv (kids @ [child]) attrs) rest"
                    using unfold braced Returns x r1 True by (simp add: consume_close_def)
                  ultimately show ?thesis using Cons ts' ts1 by simp
                next
                  case False
                  then have eof: "tok_type c = TT_EOF" using c by simp
                  have "raised_at b (t # l # items @ c # rest) (error_at c (expected_close b'))"
                    using acc Some brace items eof by (rule raised_at_eof)
                  moreover have "parse_items (Suc n) b node ts =
                      Raises (ParseException (error_at c (expected_close b')))"
                    using unfold braced Returns x r1 False by (simp add: consume_close_def)
                  ultimately show ?thesis using Cons ts' ts1 by simp
                qed
              next
                case (Raises ex)
                have "ts1 \<noteq> items @ c # x"
                  if si: "spec_items b' items" and cc: "tok_type c = TT_CLOSE_BRACE"
                  for items c x
                proof
                  assume eq: "ts1 = items @ c # x"
                  obtain lt lv where leaf: "?leaf = ASTNode lt lv [] []" by (simp add: leaf_def)
                  have "length (items @ c # x) \<le> n" using len1 eq by simp
                  then obtain more where
                    "parse_items n b' (ASTNode lt lv [] []) (items @ c # x) =
                       Returns (ASTNode lt lv ([] @ more) [], c # x)"
                    using parse_items_stop [OF si, of c x n lt lv "[]" "[]"] cc by auto
                  then show False using Raises eq leaf by simp
                qed
                then have "explained b (t # l # ts1) (parse_items n b' ?leaf ts1)"
                  using acc Some brace inner by (intro explained_open) simp_all
                moreover have "parse_items (Suc n) b node ts = parse_items n b' ?leaf ts1"
                  using unfold braced Raises by simp
                ultimately show ?thesis using Cons ts' by simp
              next
                case Exhausted
                then have "parse_items (Suc n) b node ts = Exhausted"
                  using unfold braced by simp
                then show ?thesis by simp
              qed
            qed
          qed
        qed
      qed
    qed
  qed
qed

subsection \<open>Messages\<close>

lemma viable_message: "spec_message ts \<Longrightarrow> viable ts"
  unfolding viable_def by (intro exI [of _ "[]"]) simp

lemma viable_prefix: "viable (xs @ ys) \<Longrightarrow> viable xs"
  unfolding viable_def by auto

lemma viable_take: "viable ts \<Longrightarrow> viable (take i ts)"
  using viable_prefix [of "take i ts" "drop i ts"] by simp

lemma viable_items:
  assumes "tok_type v = TT_VERSION" "tok_type l = TT_OPEN_BRACE" "items_prefix MessageBody pre"
  shows "viable (v # l # pre)"
proof -
  obtain s where s: "spec_items MessageBody (pre @ s)"
    using assms(3) unfolding items_prefix_def by blast
  have "tok_type close_brace = TT_CLOSE_BRACE" by (simp add: close_brace_def)
  then have "spec_message (v # l # (pre @ s) @ [close_brace])"
    unfolding spec_message_def using assms(1,2) s by blast
  then have "spec_message ((v # l # pre) @ (s @ [close_brace]))" by simp
  then show ?thesis unfolding viable_def by blast
qed

lemma viable_Nil: "viable []"
proof -
  have "viable (Token TT_VERSION [] 0 0 # Token TT_OPEN_BRACE [] 0 0 # [])"
    by (rule viable_items) (simp_all add: items_prefix_Nil)
  then show ?thesis using viable_prefix [of "[]"] by simp
qed

lemma viable_version: "tok_type v = TT_VERSION \<Longrightarrow> viable [v]"
proof -
  assume "tok_type v = TT_VERSION"
  then have "viable (v # Token TT_OPEN_BRACE [] 0 0 # [])"
    by (rule viable_items) (simp_all add: items_prefix_Nil)
  then show ?thesis using viable_prefix [of "[v]" "[Token TT_OPEN_BRACE [] 0 0]"] by simp
qed

lemma viable_hd: "viable (t # ts) \<Longrightarrow> tok_type t = TT_VERSION"
  unfolding viable_def spec_message_def by auto

lemma viable_second: "viable (v # t # ts) \<Longrightarrow> tok_type t = TT_OPEN_BRACE"
  unfolding viable_def spec_message_def by auto

lemma not_viable_items:
  assumes "items_violation MessageBody pre tok"
  shows "\<not> viable (v # l # pre @ [tok])"
proof
  assume "viable (v # l # pre @ [tok])"
  then obtain suffix inner r where eq: "pre @ tok # suffix = inner @ [r]"
    and inner: "spec_items MessageBody inner" and r: "tok_type r = TT_CLOSE_BRACE"
    unfolding viable_def spec_message_def by auto
  have tok: "tok_type tok \<noteq> TT_CLOSE_BRACE"
    and no: "\<And>s. \<not> spec_items MessageBody (pre @ tok # s)"
    using assms by (simp_all add: items_violation_def)
  show False
  proof (cases suffix rule: rev_cases)
    case Nil
    then have "tok = r" using eq by simp
    then show False using tok r by simp
  next
    case (snoc s x)
    then have "(pre @ tok # s) @ [x] = inner @ [r]" using eq by simp
    then have "inner = pre @ tok # s" by simp
    then show False using inner no by blast
  qed
qed

lemma spec_message_no_eof: "spec_message ts \<Longrightarrow> \<forall>t \<in> set ts. tok_type t \<noteq> TT_EOF"
  unfolding spec_message_def using spec_items_no_eof by fastforce

lemma viable_no_eof: "viable pre \<Longrightarrow> \<forall>t \<in> set pre. tok_type t \<noteq> TT_EOF"
  unfolding viable_def using spec_message_no_eof by fastforce

text \<open>Nothing can be added to a complete message.\<close>

lemma spec_message_extension:
  assumes "spec_message pre" "spec_message (pre @ x)"
  shows "x = []"
proof -
  obtain v l inner r where pre: "pre = v # l # inner @ [r]"
    and inner: "spec_items MessageBody inner" and r: "tok_type r = TT_CLOSE_BRACE"
    using assms(1) unfolding spec_message_def by blast
  obtain v' l' inner' r' where ext: "pre @ x = v' # l' # inner' @ [r']"
    and inner': "spec_items MessageBody inner'" and r': "tok_type r' = TT_CLOSE_BRACE"
    using assms(2) unfolding spec_message_def by blast
  have "inner @ r # x = inner' @ r' # []" using pre ext by simp
  then show ?thesis using spec_items_unique [OF inner inner' _ r r'] by blast
qed

lemma not_viable_extension: "spec_message pre \<Longrightarrow> \<not> viable (pre @ t # ts)"
  unfolding viable_def using spec_message_extension [of pre] by fastforce

text \<open>The first violation of a stream is at one index only, and a stream that holds an
  end-of-file token, as every stream of the scanner does, has one.\<close>

lemma first_violationI:
  "viable pre \<Longrightarrow> \<not> viable (pre @ [tok]) \<Longrightarrow> first_violation (pre @ tok # post) (length pre)"
  by (simp add: first_violation_def)

lemma first_violation_unique:
  assumes "first_violation ts i" "first_violation ts j"
  shows "i = j"
proof -
  have "False" if "first_violation ts a" "first_violation ts b" "a < b" for a b
  proof -
    have "take (Suc a) (take b ts) = take (Suc a) ts" using that(3) by (simp add: min_def)
    moreover have "viable (take (Suc a) (take b ts))"
      using that(2) by (simp only: first_violation_def viable_take)
    ultimately show False using that(1) by (simp add: first_violation_def)
  qed
  then show ?thesis using assms by (cases i j rule: linorder_cases) blast+
qed

lemma eof_first_violation:
  assumes "\<exists>t \<in> set ts. tok_type t = TT_EOF"
  shows "\<exists>i. first_violation ts i"
proof (rule ccontr)
  assume none: "\<not> (\<exists>i. first_violation ts i)"
  have all: "viable (take i ts)" if "i \<le> length ts" for i
    using that
  proof (induction i)
    case 0
    show ?case by (simp add: viable_Nil)
  next
    case (Suc i)
    then have "i < length ts" "viable (take i ts)" by simp_all
    then show ?case using none by (auto simp: first_violation_def)
  qed
  have "viable ts" using all [of "length ts"] by simp
  then show False using assms viable_no_eof by blast
qed

subsection \<open>The outcomes of \<open>_parse_message\<close>\<close>

lemma parse_message_returns:
  assumes "parse_message n ts = Returns (node, rest)" "length ts \<le> n"
  shows "\<exists>pre v kids. ts = pre @ rest \<and> spec_message pre \<and>
           node = ASTNode NT_MESSAGE None (leaf NT_VERSION v # kids) []"
proof -
  obtain v l ts2 where ts: "ts = v # l # ts2" "tok_type v = TT_VERSION"
    "tok_type l = TT_OPEN_BRACE"
    using assms(1) by (auto simp: parse_message_def split: list.splits if_splits)
  let ?node = "ASTNode NT_MESSAGE None [leaf NT_VERSION (tok_value v)] []"
  obtain r1 where p: "parse_items n MessageBody ?node ts2 = Returns (node, r1)"
    and c: "consume_close MessageBody r1 = Returns rest"
    using assms(1) ts by (auto simp: parse_message_def and_then_Returns)
  obtain inner c' rest' where i: "ts2 = inner @ c' # rest'" "r1 = c' # rest'"
    "spec_items MessageBody inner"
    using parse_items_sound [OF p] by blast
  have c': "rest' = rest" "tok_type c' = TT_CLOSE_BRACE"
    using c i(2) by (auto simp: consume_close_Returns)
  obtain v' where "good (ASTNode NT_MESSAGE None [leaf NT_VERSION v'] []) ts (parse_message n ts)"
    using parse_message_good [OF assms(2)] by blast
  then obtain more where
    "node_type node = NT_MESSAGE" "node_value node = None" "attributes node = []"
    "children node = leaf NT_VERSION v' # more"
    using assms(1) by auto
  then have "node = ASTNode NT_MESSAGE None (leaf NT_VERSION v' # more) []"
    by (cases node) simp
  moreover have "spec_message (v # l # inner @ [c'])"
    unfolding spec_message_def using ts(2,3) i(3) c'(2) by blast
  moreover have "ts = (v # l # inner @ [c']) @ rest" using ts(1) i(1) c'(1) by simp
  ultimately show ?thesis by blast
qed

lemma parse_message_complete:
  assumes "spec_message pre" "length (pre @ rest) \<le> n"
  shows "\<exists>node. parse_message n (pre @ rest) = Returns (node, rest)"
proof -
  obtain v l inner r where pre: "pre = v # l # inner @ [r]" "tok_type v = TT_VERSION"
    "tok_type l = TT_OPEN_BRACE" "spec_items MessageBody inner" "tok_type r = TT_CLOSE_BRACE"
    using assms(1) unfolding spec_message_def by blast
  let ?version = "leaf NT_VERSION (tok_value v)"
  have "length (inner @ r # rest) \<le> n" using assms(2) pre(1) by simp
  then obtain more where
    "parse_items n MessageBody (ASTNode NT_MESSAGE None [?version] []) (inner @ r # rest) =
       Returns (ASTNode NT_MESSAGE None ([?version] @ more) [], r # rest)"
    using parse_items_stop [OF pre(4), of r rest n NT_MESSAGE None "[?version]" "[]"] pre(5)
    by auto
  then have "parse_message n (pre @ rest) =
      Returns (ASTNode NT_MESSAGE None ([?version] @ more) [], rest)"
    using pre by (simp add: parse_message_def consume_close_def)
  then show ?thesis by blast
qed

lemma parse_message_raises:
  assumes "parse_message n ts = Raises (ParseException e)" "length ts \<le> n"
  shows "\<exists>pre tok post m. ts = pre @ tok # post \<and> viable pre \<and> \<not> viable (pre @ [tok]) \<and>
           e = error_at tok m \<and> violation_text (length pre) tok m"
proof (cases ts)
  case Nil
  then show ?thesis using assms(1) by (simp add: parse_message_def)
next
  case ts: (Cons t ts1)
  show ?thesis
  proof (cases "tok_type t = TT_VERSION")
    case False
    have "e = error_at t ''Expected version marker (@v1.0)''"
      using assms(1) ts False by (simp add: parse_message_def)
    moreover have "violation_text (length ([] :: token list)) t ''Expected version marker (@v1.0)''"
      by (simp add: violation_text_def)
    moreover have "\<not> viable ([] @ [t])" using viable_hd [of t "[]"] False by auto
    moreover have "ts = [] @ t # ts1" using ts by simp
    ultimately show ?thesis using viable_Nil by blast
  next
    case version: True
    show ?thesis
    proof (cases ts1)
      case Nil
      then show ?thesis using assms(1) ts version by (simp add: parse_message_def)
    next
      case ts1: (Cons t1 ts2)
      show ?thesis
      proof (cases "tok_type t1 = TT_OPEN_BRACE")
        case False
        let ?m = "''Expected '' @ [CHR 0x27] @ ''{'' @ [CHR 0x27] @ '' after version marker''"
        have "e = error_at t1 ?m"
          using assms(1) ts ts1 version False by (simp add: parse_message_def)
        moreover have "violation_text (length [t]) t1 ?m"
          by (simp add: violation_text_def)
        moreover have "\<not> viable ([t] @ [t1])" using viable_second [of t t1 "[]"] False by auto
        moreover have "ts = [t] @ t1 # ts2" using ts ts1 by simp
        moreover have "viable [t]" using version by (rule viable_version)
        ultimately show ?thesis by blast
      next
        case brace: True
        let ?node = "ASTNode NT_MESSAGE None [leaf NT_VERSION (tok_value t)] []"
        have unfold: "parse_message n ts =
            and_then (parse_items n MessageBody ?node ts2)
              (\<lambda>(message_node, rest).
                 and_then (consume_close MessageBody rest) (\<lambda>rest'. Returns (message_node, rest')))"
          using ts ts1 version brace by (simp add: parse_message_def)
        have len: "length ts2 \<le> n" using assms(2) ts ts1 by simp
        show ?thesis
        proof (cases "parse_items n MessageBody ?node ts2")
          case (Returns x)
          obtain node1 r1 where x: "x = (node1, r1)" by (cases x)
          obtain inner c rest where
            ts2: "ts2 = inner @ c # rest" and r1: "r1 = c # rest"
            and inner: "spec_items MessageBody inner"
            and c: "tok_type c = TT_CLOSE_BRACE \<or> tok_type c = TT_EOF"
            using parse_items_sound [of n MessageBody ?node ts2 node1 r1] Returns x by auto
          have eof: "tok_type c = TT_EOF"
            using assms(1) unfold Returns x r1 c by (auto simp: consume_close_def split: if_splits)
          have "e = error_at c (expected_close MessageBody)"
            using assms(1) unfold Returns x r1 eof by (simp add: consume_close_def)
          moreover have "violation_text (length (t # t1 # inner)) c (expected_close MessageBody)"
            using eof by (auto simp: violation_text_def simp del: expected_close.simps)
          moreover have "\<not> viable ((t # t1 # inner) @ [c])" using viable_no_eof eof by fastforce
          moreover have "viable (t # t1 # inner)"
            using version brace items_prefix_items [OF inner] by (rule viable_items)
          moreover have "ts = (t # t1 # inner) @ c # rest" using ts ts1 ts2 by simp
          ultimately show ?thesis by blast
        next
          case (Raises ex)
          then have ex: "ex = ParseException e" using assms(1) unfold by simp
          have "explained MessageBody ts2 (parse_items n MessageBody ?node ts2)"
            using len by (rule parse_items_explained)
          then obtain pre tok post m where
            ts2: "ts2 = pre @ tok # post" and v: "items_violation MessageBody pre tok"
            and e: "e = error_at tok m" and m: "violation_text (Suc (Suc (length pre))) tok m"
            using Raises ex by (auto simp: raised_at_def)
          have "viable (t # t1 # pre)"
            using version brace v by (simp add: items_violation_def viable_items)
          moreover have "\<not> viable ((t # t1 # pre) @ [tok])"
            using not_viable_items [OF v, of t t1] by simp
          moreover have "violation_text (length (t # t1 # pre)) tok m" using m by simp
          moreover have "ts = (t # t1 # pre) @ tok # post" using ts ts1 ts2 by simp
          ultimately show ?thesis using e by blast
        next
          case Exhausted
          then show ?thesis using assms(1) unfold by simp
        qed
      qed
    qed
  qed
qed

lemma parse_message_index:
  assumes "parse_message n ts = Raises IndexError" "length ts \<le> n"
  shows "viable ts"
proof (cases ts)
  case Nil
  then show ?thesis by (simp add: viable_Nil)
next
  case ts: (Cons t ts1)
  have version: "tok_type t = TT_VERSION"
    using assms(1) ts by (auto simp: parse_message_def split: if_splits)
  show ?thesis
  proof (cases ts1)
    case Nil
    then show ?thesis using ts version by (simp add: viable_version)
  next
    case ts1: (Cons t1 ts2)
    have brace: "tok_type t1 = TT_OPEN_BRACE"
      using assms(1) ts ts1 version by (auto simp: parse_message_def split: if_splits)
    let ?node = "ASTNode NT_MESSAGE None [leaf NT_VERSION (tok_value t)] []"
    have unfold: "parse_message n ts =
        and_then (parse_items n MessageBody ?node ts2)
          (\<lambda>(message_node, rest).
             and_then (consume_close MessageBody rest) (\<lambda>rest'. Returns (message_node, rest')))"
      using ts ts1 version brace by (simp add: parse_message_def)
    have len: "length ts2 \<le> n" using assms(2) ts ts1 by simp
    show ?thesis
    proof (cases "parse_items n MessageBody ?node ts2")
      case (Returns x)
      obtain node1 r1 where x: "x = (node1, r1)" by (cases x)
      obtain c rest where "r1 = c # rest"
        using parse_items_sound [of n MessageBody ?node ts2 node1 r1] Returns x by auto
      then show ?thesis
        using assms(1) unfold Returns x by (auto simp: consume_close_def split: if_splits)
    next
      case (Raises ex)
      then have ex: "ex = IndexError" using assms(1) unfold by simp
      have "explained MessageBody ts2 (parse_items n MessageBody ?node ts2)"
        using len by (rule parse_items_explained)
      then have "items_prefix MessageBody ts2" using Raises ex by simp
      then show ?thesis using ts ts1 version brace by (simp add: viable_items)
    next
      case Exhausted
      then show ?thesis using assms(1) unfold by simp
    qed
  qed
qed

subsection \<open>The error policy\<close>

text \<open>The text \<open>@v1.0{#a}}#b{\<close>: its tokens, the message they begin with, and their first
  violation.\<close>

lemma scan_trailing: "tokenize ''@v1.0{#a}}#b{'' = trailing_tokens"
  by (simp add: tokenize_def next_token_def isspace_def single_def tokenize_version_def
        match_version_def tokenize_concept_def tokenize_run_def concept_char_def isalnum_def
        isalpha_def isdigit_def is_decimal_def trailing_tokens_def)

lemma filter_trailing:
  "filter (\<lambda>t. tok_type t \<noteq> TT_WHITESPACE) trailing_tokens = trailing_tokens"
  by (simp add: trailing_tokens_def)

lemma spec_messageI:
  "tok_type v = TT_VERSION \<Longrightarrow> tok_type l = TT_OPEN_BRACE \<Longrightarrow> spec_items MessageBody inner \<Longrightarrow>
   tok_type r = TT_CLOSE_BRACE \<Longrightarrow> spec_message (v # l # inner @ [r])"
  unfolding spec_message_def by blast

lemma trailing_message: "spec_message (take 4 trailing_tokens)"
proof -
  have items: "spec_items MessageBody [Token TT_CONCEPT ''#a'' 1 7]"
    by (intro spec_items_single spec_items.none) simp
  have "spec_message (Token TT_VERSION ''@v1.0'' 1 1 # Token TT_OPEN_BRACE ''{'' 1 6 #
      [Token TT_CONCEPT ''#a'' 1 7] @ [Token TT_CLOSE_BRACE ''}'' 1 9])"
    by (rule spec_messageI) (simp_all add: items)
  then show ?thesis by (simp add: trailing_tokens_def)
qed

lemma trailing_violation: "first_violation trailing_tokens 4"
proof -
  have "take (Suc 4) trailing_tokens = take 4 trailing_tokens @ Token TT_CLOSE_BRACE ''}'' 1 10 # []"
    by (simp add: trailing_tokens_def)
  then have "\<not> viable (take (Suc 4) trailing_tokens)"
    using not_viable_extension [OF trailing_message] by simp
  moreover have "viable (take 4 trailing_tokens)"
    using trailing_message by (rule viable_message)
  moreover have "4 < length trailing_tokens" by (simp add: trailing_tokens_def)
  ultimately show ?thesis by (simp add: first_violation_def)
qed

lemma parse_trailing:
  "parse trailing_tokens =
     Some (ASTNode NT_MESSAGE None [leaf NT_VERSION ''@v1.0'', leaf NT_CONCEPT ''#a''] [], [])"
  by (simp add: parse_def parse_message_def trailing_tokens_def leaf_def consume_close_def)

text \<open>
  C6 as the specification words it does not hold. The parser stops reading at the brace
  that closes the message and never looks at what follows, so a violation behind that
  brace is not reported. In \<open>@v1.0{#a}}#b{\<close> the first violation is the second closing
  brace, at index 4 (and a body is left open after it); \<open>parse\<close> returns the tree of
  \<open>@v1.0{#a}\<close> and records no error.
\<close>

theorem parse_error_policy_counterexample:
  "filter (\<lambda>t. tok_type t \<noteq> TT_WHITESPACE) (tokenize ''@v1.0{#a}}#b{'') = trailing_tokens
   \<and> first_violation trailing_tokens 4
   \<and> trailing_tokens ! 4 = Token TT_CLOSE_BRACE ''}'' 1 10
   \<and> parse (tokenize ''@v1.0{#a}}#b{'') =
       Some (ASTNode NT_MESSAGE None [leaf NT_VERSION ''@v1.0'', leaf NT_CONCEPT ''#a''] [], [])"
  using scan_trailing filter_trailing trailing_violation parse_trailing
  by (simp add: trailing_tokens_def)

text \<open>
  C6, amended. Let the first violation of a token stream (whitespace dropped) be at index
  \<open>i\<close>: the \<open>i\<close> tokens before it can be continued to a message of the grammar, and with
  token \<open>i\<close> they cannot. If those \<open>i\<close> tokens are not a complete message already, then
  \<open>parse\<close> returns the node \<open>Message "Error"\<close> without children whose \<open>error\<close> attribute
  is the text of the error, and \<open>self.errors\<close> holds that one text and no other (twice:
  \<open>_error\<close> and \<open>parse\<close> both append it); the text is the line and column of token \<open>i\<close>
  with the message of the violation: missing version marker, missing opening brace,
  missing closing brace, or unexpected token. If the \<open>i\<close> tokens are a complete message,
  then \<open>parse\<close> returns a Message node that starts with its Version child, and
  \<open>self.errors\<close> is empty, whatever the violation is.
\<close>

theorem parse_error_policy:
  assumes "ts = filter (\<lambda>t. tok_type t \<noteq> TT_WHITESPACE) tokens" and "first_violation ts i"
  shows "if spec_message (take i ts)
         then \<exists>v kids. parse tokens =
                Some (ASTNode NT_MESSAGE None (leaf NT_VERSION v # kids) [], [])
         else \<exists>m. violation_text i (ts ! i) m \<and>
                parse tokens =
                  Some (error_node (error_at (ts ! i) m),
                        [error_at (ts ! i) m, error_at (ts ! i) m])"
proof -
  have viol: "i < length ts" "viable (take i ts)" "\<not> viable (take (Suc i) ts)"
    using assms(2) by (simp_all add: first_violation_def)
  have parse: "parse tokens =
      (case parse_message (length ts) ts of
         Returns (node, rest) \<Rightarrow> Some (node, [])
       | Raises (ParseException e) \<Rightarrow> Some (error_node e, [e, e])
       | Raises IndexError \<Rightarrow>
           Some (error_node ''list index out of range'', [''list index out of range''])
       | Exhausted \<Rightarrow> None)"
    using assms(1) by (simp add: parse_def Let_def)
  show ?thesis
  proof (cases "spec_message (take i ts)")
    case True
    have "length (take i ts @ drop i ts) \<le> length ts" by simp
    then obtain node where
      "parse_message (length ts) (take i ts @ drop i ts) = Returns (node, drop i ts)"
      using parse_message_complete [OF True] by blast
    then have ret: "parse_message (length ts) ts = Returns (node, drop i ts)" by simp
    then obtain v kids where "node = ASTNode NT_MESSAGE None (leaf NT_VERSION v # kids) []"
      using parse_message_returns [OF ret] by auto
    then have "parse tokens = Some (ASTNode NT_MESSAGE None (leaf NT_VERSION v # kids) [], [])"
      using parse ret by simp
    then show ?thesis using True by auto
  next
    case no_message: False
    have "\<exists>m. violation_text i (ts ! i) m \<and>
            parse tokens =
              Some (error_node (error_at (ts ! i) m),
                    [error_at (ts ! i) m, error_at (ts ! i) m])"
    proof (cases "parse_message (length ts) ts")
      case (Returns x)
      obtain node rest where x: "x = (node, rest)" by (cases x)
      obtain pre where pre: "ts = pre @ rest" "spec_message pre"
        using parse_message_returns [of "length ts" ts node rest] Returns x by auto
      have "take i ts = pre"
      proof (cases "i < length pre")
        case True
        then have "take (Suc i) ts = take (Suc i) pre" using pre(1) by simp
        moreover have "viable (take (Suc i) pre)"
          using viable_message [OF pre(2)] by (rule viable_take)
        ultimately show ?thesis using viol(3) by simp
      next
        case False
        then have split: "take i ts = pre @ take (i - length pre) rest" using pre(1) by simp
        then have "viable (pre @ take (i - length pre) rest)" using viol(2) by simp
        then obtain s where "spec_message (pre @ (take (i - length pre) rest @ s))"
          unfolding viable_def by auto
        then have "take (i - length pre) rest @ s = []"
          using spec_message_extension [OF pre(2)] by blast
        then show ?thesis using split by simp
      qed
      then show ?thesis using no_message pre(2) by simp
    next
      case (Raises ex)
      show ?thesis
      proof (cases ex)
        case (ParseException e)
        obtain pre tok post m where
          ts: "ts = pre @ tok # post" and pre: "viable pre" "\<not> viable (pre @ [tok])"
          and e: "e = error_at tok m" and m: "violation_text (length pre) tok m"
          using parse_message_raises [of "length ts" ts e] Raises ParseException by auto
        have "first_violation ts (length pre)"
          unfolding ts using pre by (rule first_violationI)
        then have i: "i = length pre" using assms(2) by (rule first_violation_unique [symmetric])
        then have "ts ! i = tok" using ts by simp
        then have "violation_text i (ts ! i) m \<and>
            parse tokens =
              Some (error_node (error_at (ts ! i) m),
                    [error_at (ts ! i) m, error_at (ts ! i) m])"
          using parse Raises ParseException e m i by simp
        then show ?thesis by blast
      next
        case IndexError
        then have "viable ts"
          using parse_message_index [of "length ts" ts] Raises by simp
        then have "viable (take (Suc i) ts)" by (rule viable_take)
        then show ?thesis using viol(3) by simp
      qed
    next
      case Exhausted
      obtain v where "good (ASTNode NT_MESSAGE None [leaf NT_VERSION v] []) ts
                        (parse_message (length ts) ts)"
        using parse_message_good [of ts "length ts"] by auto
      then show ?thesis using Exhausted by simp
    qed
    then show ?thesis using no_message by auto
  qed
qed

text \<open>
  In \<open>@v1.0{~r{$q}}\<close> the first violation is the quantifier in the body of the relation,
  at index 4, and the four tokens before it are not a message.
\<close>

lemma filter_quantifier:
  "filter (\<lambda>t. tok_type t \<noteq> TT_WHITESPACE) quantifier_tokens = quantifier_tokens"
  by (simp add: quantifier_tokens_def)

lemma spec_message_last: "spec_message ts \<Longrightarrow> tok_type (last ts) = TT_CLOSE_BRACE"
  unfolding spec_message_def by auto

lemma quantifier_no_message: "\<not> spec_message (take 4 quantifier_tokens)"
  using spec_message_last [of "take 4 quantifier_tokens"] by (auto simp: quantifier_tokens_def)

lemma quantifier_violation: "first_violation quantifier_tokens 4"
proof -
  let ?r = "Token TT_RELATION ''~r'' 1 7" and ?l = "Token TT_OPEN_BRACE ''{'' 1 9"
  let ?q = "Token TT_QUANTIFIER ''$q'' 1 10"
  have prefix: "items_prefix MessageBody [?r, ?l]"
    by (rule items_prefix_open [where b' = RelationBody]) (simp_all add: items_prefix_Nil)
  have "\<not> spec_items MessageBody ([?r, ?l] @ ?q # suffix)" for suffix
  proof
    assume "spec_items MessageBody ([?r, ?l] @ ?q # suffix)"
    then have a: "spec_items MessageBody (?r # ?l # (?q # suffix))" by simp
    obtain b' inner c rest where
      sb: "spec_body (tok_type ?r) = Some b'" and eq: "?q # suffix = inner @ c # rest"
      and inner: "spec_items b' inner" and c: "tok_type c = TT_CLOSE_BRACE"
      using spec_items_open [OF a] by auto
    have b': "b' = RelationBody" using sb by simp
    show False
    proof (cases inner)
      case Nil
      then show False using eq c by auto
    next
      case (Cons x xs)
      then have "spec_items RelationBody (?q # xs)" using eq inner b' by simp
      then show False using spec_items_Cons [of RelationBody ?q xs] by simp
    qed
  qed
  then have "items_violation MessageBody [?r, ?l] ?q"
    using prefix by (simp add: items_violation_def)
  then have "\<not> viable (Token TT_VERSION ''@v1.0'' 1 1 # Token TT_OPEN_BRACE ''{'' 1 6 #
      [?r, ?l] @ [?q])"
    by (rule not_viable_items)
  moreover have "viable (Token TT_VERSION ''@v1.0'' 1 1 # Token TT_OPEN_BRACE ''{'' 1 6 # [?r, ?l])"
    using prefix by (intro viable_items) simp_all
  ultimately show ?thesis by (simp add: first_violation_def quantifier_tokens_def)
qed

theorem parse_error_policy_witness:
  "(first_violation quantifier_tokens 4 \<and> \<not> spec_message (take 4 quantifier_tokens) \<and>
    parse quantifier_tokens =
      Some (error_node ''Error at line 1, column 10: Unexpected token in relation: $q'',
            [''Error at line 1, column 10: Unexpected token in relation: $q'',
             ''Error at line 1, column 10: Unexpected token in relation: $q'']))
   \<and> (first_violation trailing_tokens 4 \<and> spec_message (take 4 trailing_tokens) \<and>
      (\<exists>v kids. parse trailing_tokens =
         Some (ASTNode NT_MESSAGE None (leaf NT_VERSION v # kids) [], [])))"
proof -
  have "\<exists>m. violation_text 4 (quantifier_tokens ! 4) m \<and>
          parse quantifier_tokens =
            Some (error_node (error_at (quantifier_tokens ! 4) m),
                  [error_at (quantifier_tokens ! 4) m, error_at (quantifier_tokens ! 4) m])"
    using parse_error_policy [OF filter_quantifier [symmetric] quantifier_violation]
      quantifier_no_message by simp
  then obtain m where m: "violation_text 4 (Token TT_QUANTIFIER ''$q'' 1 10) m"
    and p: "parse quantifier_tokens =
            Some (error_node (error_at (Token TT_QUANTIFIER ''$q'' 1 10) m),
                  [error_at (Token TT_QUANTIFIER ''$q'' 1 10) m,
                   error_at (Token TT_QUANTIFIER ''$q'' 1 10) m])"
    by (auto simp: quantifier_tokens_def)
  have "parse quantifier_tokens =
      Some (error_node ''Error at line 1, column 10: Unexpected token in relation: $q'',
            [''Error at line 1, column 10: Unexpected token in relation: $q'',
             ''Error at line 1, column 10: Unexpected token in relation: $q''])"
    by (simp add: parse_def parse_message_def quantifier_tokens_def leaf_def error_at_def
          str_of_int_def string_of_nat.simps digit_char_def)
  moreover have "\<exists>v kids. parse trailing_tokens =
         Some (ASTNode NT_MESSAGE None (leaf NT_VERSION v # kids) [], [])"
    using parse_error_policy [OF filter_trailing [symmetric] trailing_violation]
      trailing_message by simp
  ultimately show ?thesis
    using quantifier_violation quantifier_no_message trailing_violation trailing_message
    by simp
qed

text \<open>The scanner ends every stream with an end-of-file token, so that every stream of
  the scanner has a first violation.\<close>

lemma tokenize_from_eof: "\<exists>t \<in> set (tokenize_from s line column). tok_type t = TT_EOF"
proof (induction s line column rule: tokenize_from.induct)
  case (1 line column)
  show ?case by simp
next
  case (2 c cs line column)
  obtain tok rest line' column' where n: "next_token c cs line column = (tok, rest, line', column')"
    by (cases "next_token c cs line column") auto
  then have "\<exists>t \<in> set (tokenize_from rest line' column'). tok_type t = TT_EOF"
    using "2.IH" by simp
  then show ?case using n by auto
qed

lemma scanned_first_violation:
  "\<exists>i. first_violation (filter (\<lambda>t. tok_type t \<noteq> TT_WHITESPACE) (tokenize s)) i"
proof -
  obtain t where "t \<in> set (tokenize s)" "tok_type t = TT_EOF"
    using tokenize_from_eof unfolding tokenize_def by blast
  then have "\<exists>t \<in> set (filter (\<lambda>t. tok_type t \<noteq> TT_WHITESPACE) (tokenize s)). tok_type t = TT_EOF"
    by auto
  then show ?thesis by (rule eof_first_violation)
qed

subsection \<open>Quantifiers in the bodies of relations and concepts\<close>

text \<open>
  C5. The loop of \<open>_parse_relation\<close> raises the error \<open>Unexpected token in relation\<close> at
  a quantifier token, whatever came before it in the body and whatever follows; the loop
  of \<open>_parse_concept\<close> parses the quantifier and goes on with the quantifier node as the
  last child of the concept. For the two shortest messages: \<open>@v{ ~r { $q } }\<close> gives the
  error node with that error, \<open>@v{ #c { $q } }\<close> a concept node whose child is the
  quantifier.
\<close>

theorem relation_rejects_quantifier:
  "(tok_type q = TT_QUANTIFIER \<longrightarrow>
      parse_items (Suc n) RelationBody node (q # ts) =
        Raises (ParseException (error_at q (''Unexpected token in relation: '' @ tok_value q))))
   \<and> (tok_type q = TT_QUANTIFIER \<longrightarrow>
      parse_items (Suc n) ConceptBody (ASTNode nt nv kids attrs) (q # ts) =
        and_then (parse_braced n QuantifierBody (leaf NT_QUANTIFIER (tok_value q)) ts)
          (\<lambda>(child, rest). parse_items n ConceptBody (ASTNode nt nv (kids @ [child]) attrs) rest))
   \<and> (tok_type v = TT_VERSION \<and> tok_type o1 = TT_OPEN_BRACE \<and> tok_type o2 = TT_OPEN_BRACE \<and>
       tok_type q = TT_QUANTIFIER \<and> tok_type c1 = TT_CLOSE_BRACE \<and>
       tok_type c2 = TT_CLOSE_BRACE \<and> tok_type e = TT_EOF \<longrightarrow>
       (tok_type r = TT_RELATION \<longrightarrow>
          parse [v, o1, r, o2, q, c1, c2, e] =
            Some (error_node (error_at q (''Unexpected token in relation: '' @ tok_value q)),
                  [error_at q (''Unexpected token in relation: '' @ tok_value q),
                   error_at q (''Unexpected token in relation: '' @ tok_value q)]))
       \<and> (tok_type r = TT_CONCEPT \<longrightarrow>
          parse [v, o1, r, o2, q, c1, c2, e] =
            Some (ASTNode NT_MESSAGE None
                    [leaf NT_VERSION (tok_value v),
                     ASTNode NT_CONCEPT (Some (tok_value r))
                       [leaf NT_QUANTIFIER (tok_value q)] []] [],
                  [])))"
proof -
  obtain nt' nv' kids' attrs' where node: "node = ASTNode nt' nv' kids' attrs'" by (cases node)
  have a: "tok_type q = TT_QUANTIFIER \<longrightarrow>
      parse_items (Suc n) RelationBody node (q # ts) =
        Raises (ParseException (error_at q (''Unexpected token in relation: '' @ tok_value q)))"
    using node by simp
  have b: "tok_type q = TT_QUANTIFIER \<longrightarrow>
      parse_items (Suc n) ConceptBody (ASTNode nt nv kids attrs) (q # ts) =
        and_then (parse_braced n QuantifierBody (leaf NT_QUANTIFIER (tok_value q)) ts)
          (\<lambda>(child, rest). parse_items n ConceptBody (ASTNode nt nv (kids @ [child]) attrs) rest)"
    by simp
  have c: "parse [v, o1, r, o2, q, c1, c2, e] =
            Some (error_node (error_at q (''Unexpected token in relation: '' @ tok_value q)),
                  [error_at q (''Unexpected token in relation: '' @ tok_value q),
                   error_at q (''Unexpected token in relation: '' @ tok_value q)])"
    if "tok_type v = TT_VERSION" "tok_type o1 = TT_OPEN_BRACE" "tok_type o2 = TT_OPEN_BRACE"
       "tok_type q = TT_QUANTIFIER" "tok_type c1 = TT_CLOSE_BRACE" "tok_type c2 = TT_CLOSE_BRACE"
       "tok_type e = TT_EOF" "tok_type r = TT_RELATION"
    using that by (simp add: parse_def parse_message_def leaf_def)
  have d: "parse [v, o1, r, o2, q, c1, c2, e] =
            Some (ASTNode NT_MESSAGE None
                    [leaf NT_VERSION (tok_value v),
                     ASTNode NT_CONCEPT (Some (tok_value r))
                       [leaf NT_QUANTIFIER (tok_value q)] []] [],
                  [])"
    if "tok_type v = TT_VERSION" "tok_type o1 = TT_OPEN_BRACE" "tok_type o2 = TT_OPEN_BRACE"
       "tok_type q = TT_QUANTIFIER" "tok_type c1 = TT_CLOSE_BRACE" "tok_type c2 = TT_CLOSE_BRACE"
       "tok_type e = TT_EOF" "tok_type r = TT_CONCEPT"
    using that by (simp add: parse_def parse_message_def leaf_def consume_close_def)
  show ?thesis using a b c d by blast
qed

lemma example_relation_quantifier:
  "parse (tokenize ''@v1.0{~r{$q}}'') =
     Some (error_node ''Error at line 1, column 10: Unexpected token in relation: $q'',
           [''Error at line 1, column 10: Unexpected token in relation: $q'',
            ''Error at line 1, column 10: Unexpected token in relation: $q''])"
  by (simp add: parse_def tokenize_def next_token_def isspace_def
        single_def tokenize_version_def match_version_def tokenize_relation_def
        tokenize_quantifier_def tokenize_run_def identifier_char_def isalnum_def
        isalpha_def isdigit_def is_decimal_def parse_message_def error_at_def str_of_int_def
        string_of_nat.simps digit_char_def leaf_def)

lemma example_concept_quantifier:
  "parse (tokenize ''@v1.0{#c{$q}}'') =
     Some (ASTNode NT_MESSAGE None
             [ASTNode NT_VERSION (Some ''@v1.0'') [] [],
              ASTNode NT_CONCEPT (Some ''#c'') [ASTNode NT_QUANTIFIER (Some ''$q'') [] []] []] [],
           [])"
  by (simp add: parse_def tokenize_def next_token_def isspace_def
        single_def tokenize_version_def match_version_def tokenize_concept_def
        tokenize_quantifier_def tokenize_run_def identifier_char_def concept_char_def isalnum_def
        isalpha_def isdigit_def is_decimal_def parse_message_def consume_close_def leaf_def)

theorem relation_rejects_quantifier_witness:
  "parse [Token TT_VERSION ''@v1.0'' 1 1, Token TT_OPEN_BRACE ''{'' 1 6,
          Token TT_RELATION ''~r'' 1 7, Token TT_OPEN_BRACE ''{'' 1 9,
          Token TT_QUANTIFIER ''$q'' 1 10, Token TT_CLOSE_BRACE ''}'' 1 12,
          Token TT_CLOSE_BRACE ''}'' 1 13, Token TT_EOF [] 1 14] =
     Some (error_node ''Error at line 1, column 10: Unexpected token in relation: $q'',
           [''Error at line 1, column 10: Unexpected token in relation: $q'',
            ''Error at line 1, column 10: Unexpected token in relation: $q''])
   \<and> parse [Token TT_VERSION ''@v1.0'' 1 1, Token TT_OPEN_BRACE ''{'' 1 6,
          Token TT_CONCEPT ''#c'' 1 7, Token TT_OPEN_BRACE ''{'' 1 9,
          Token TT_QUANTIFIER ''$q'' 1 10, Token TT_CLOSE_BRACE ''}'' 1 12,
          Token TT_CLOSE_BRACE ''}'' 1 13, Token TT_EOF [] 1 14] =
     Some (ASTNode NT_MESSAGE None
             [ASTNode NT_VERSION (Some ''@v1.0'') [] [],
              ASTNode NT_CONCEPT (Some ''#c'') [ASTNode NT_QUANTIFIER (Some ''$q'') [] []] []] [],
           [])"
  using relation_rejects_quantifier [of "Token TT_QUANTIFIER ''$q'' 1 10" 0 "leaf NT_RELATION ''~r''"
      "[]" NT_CONCEPT None "[]" "[]" "Token TT_VERSION ''@v1.0'' 1 1" "Token TT_OPEN_BRACE ''{'' 1 6"
      "Token TT_OPEN_BRACE ''{'' 1 9" "Token TT_CLOSE_BRACE ''}'' 1 12"
      "Token TT_CLOSE_BRACE ''}'' 1 13" "Token TT_EOF [] 1 14" "Token TT_RELATION ''~r'' 1 7"]
    relation_rejects_quantifier [of "Token TT_QUANTIFIER ''$q'' 1 10" 0 "leaf NT_RELATION ''~r''"
      "[]" NT_CONCEPT None "[]" "[]" "Token TT_VERSION ''@v1.0'' 1 1" "Token TT_OPEN_BRACE ''{'' 1 6"
      "Token TT_OPEN_BRACE ''{'' 1 9" "Token TT_CLOSE_BRACE ''}'' 1 12"
      "Token TT_CLOSE_BRACE ''}'' 1 13" "Token TT_EOF [] 1 14" "Token TT_CONCEPT ''#c'' 1 7"]
  by (simp add: error_at_def str_of_int_def string_of_nat.simps digit_char_def leaf_def)


section \<open>The optimizer\<close>

lemma optimize_node_Null [simp]: "optimize_node a p x = Null \<longleftrightarrow> x = Null"
  by (cases x) auto

lemma is_concept_optimize_node [simp]: "is_concept (optimize_node a p x) = is_concept x"
  by (cases x) auto

lemma is_relation_optimize_node [simp]: "is_relation (optimize_node a p x) = is_relation x"
  by (cases x) auto

lemma has_key_sort_key_of [simp]:
  "has_key x \<Longrightarrow> sort_key_of (optimize_node a p x) = sort_key_of x"
  by (cases x rule: has_key.cases) (auto simp: placeholder_def or_blank_def split: option.splits)

lemma placeholder_twice [simp]:
  "placeholder prefix a2 (placeholder prefix a1 s) = placeholder prefix a1 s"
  by (simp add: placeholder_def split: option.splits)

lemma optimize_attributes_twice [simp]:
  "optimize_attributes a2 (optimize_attributes a1 attrs) = optimize_attributes a1 attrs"
  by (simp add: optimize_attributes_def map_add_def)

lemma length_optimize_list [simp]: "length (optimize_list a p i xs) = length xs"
  by (induction xs arbitrary: i) auto

lemma optimize_list_append:
  "optimize_list a p i (xs @ ys) = optimize_list a p i xs @ optimize_list a p (i + length xs) ys"
  by (induction xs arbitrary: i) auto

lemma list_all_concept_optimize_list [simp]:
  "list_all is_concept (optimize_list a p i xs) = list_all is_concept xs"
  by (induction xs arbitrary: i) auto

lemma list_all_relation_optimize_list [simp]:
  "list_all is_relation (optimize_list a p i xs) = list_all is_relation xs"
  by (induction xs arbitrary: i) auto

lemma list_all_other_optimize_list [simp]:
  "list_all (\<lambda>n. \<not> is_relation n \<and> \<not> is_concept n) (optimize_list a p i xs) =
   list_all (\<lambda>n. \<not> is_relation n \<and> \<not> is_concept n) xs"
  by (induction xs arbitrary: i) auto

lemma list_all_not_Null_optimize_list [simp]:
  "list_all (\<lambda>n. n \<noteq> Null) (optimize_list a p i xs) = list_all (\<lambda>n. n \<noteq> Null) xs"
  by (induction xs arbitrary: i) auto

lemma list_all_filter_self [simp]: "list_all P (filter P xs)"
  by (simp add: list_all_iff)

lemma filter_all: "list_all P xs \<Longrightarrow> filter P xs = xs"
  by (induction xs) auto

lemma filter_none: "list_all (\<lambda>x. \<not> P x) xs \<Longrightarrow> filter P xs = []"
  by (induction xs) auto

lemma concept_not_relation: "is_concept x \<Longrightarrow> \<not> is_relation x"
  by (cases x) auto

text \<open>A list that is grouped already is regrouped to itself.\<close>

lemma regroup_grouped:
  assumes "list_all is_concept A" "list_all is_relation B"
    and "list_all (\<lambda>n. \<not> is_relation n \<and> \<not> is_concept n) C"
  shows "regroup (A @ B @ C) = A @ B @ C"
proof -
  have "list_all (\<lambda>x. \<not> is_relation x) A"
    using assms(1) by (auto simp: list_all_iff concept_not_relation)
  moreover have "list_all (\<lambda>x. \<not> (\<not> is_relation x \<and> \<not> is_concept x)) A"
    using assms(1) by (auto simp: list_all_iff)
  moreover have "list_all (\<lambda>x. \<not> is_concept x) B"
    using assms(2) by (auto simp: list_all_iff concept_not_relation)
  moreover have "list_all (\<lambda>x. \<not> (\<not> is_relation x \<and> \<not> is_concept x)) B"
    using assms(2) by (auto simp: list_all_iff)
  moreover have "list_all (\<lambda>x. \<not> is_concept x) C" "list_all (\<lambda>x. \<not> is_relation x) C"
    using assms(3) by (auto simp: list_all_iff)
  ultimately show ?thesis
    using assms by (simp add: regroup_def filter_all filter_none)
qed

lemma regroup_optimize_list:
  "regroup (optimize_list a p i (regroup xs)) = optimize_list a p i (regroup xs)"
proof -
  let ?A = "filter is_concept xs" and ?B = "filter is_relation xs"
  let ?C = "filter (\<lambda>n. \<not> is_relation n \<and> \<not> is_concept n) xs"
  have "optimize_list a p i (regroup xs) =
      optimize_list a p i ?A @ optimize_list a p (i + length ?A) ?B @
      optimize_list a p (i + length ?A + length ?B) ?C"
    by (simp add: regroup_def optimize_list_append)
  moreover have "list_all is_concept (optimize_list a p i ?A)"
    by simp
  moreover have "list_all is_relation (optimize_list a p (i + length ?A) ?B)"
    by simp
  moreover have "list_all (\<lambda>n. \<not> is_relation n \<and> \<not> is_concept n)
                   (optimize_list a p (i + length ?A + length ?B) ?C)"
    by simp
  ultimately show ?thesis by (simp add: regroup_grouped)
qed

lemma map_sort_key_of_optimize_list:
  "list_all has_key xs \<Longrightarrow> map sort_key_of (optimize_list a p i xs) = map sort_key_of xs"
  by (induction xs arbitrary: i) auto

lemma optimize_list_twice:
  assumes "\<And>x a1 a2 p1 p2. x \<in> set xs \<Longrightarrow>
             optimize_node a2 p2 (optimize_node a1 p1 x) = optimize_node a1 p1 x"
  shows "optimize_list a2 p2 i2 (optimize_list a1 p1 i1 xs) = optimize_list a1 p1 i1 xs"
  using assms by (induction xs arbitrary: i1 i2) auto

lemma set_regroup [simp]: "set (regroup xs) = set xs"
  by (auto simp: regroup_def)

lemma optimize_node_twice:
  "keyed x \<Longrightarrow> optimize_node a2 p2 (optimize_node a1 p1 x) = optimize_node a1 p1 x"
proof (induction x arbitrary: a1 a2 p1 p2)
  case Null
  show ?case by simp
next
  case (Message version content)
  let ?ys = "sort_key sort_key_of (filter (\<lambda>n. n \<noteq> Null) content)"
  let ?L = "optimize_list a1 p1 0 ?ys"
  have sub: "set ?ys \<subseteq> set content" by auto
  have keys: "list_all has_key ?ys"
    using Message.prems sub by (auto simp: list_all_iff)
  have "list_all (\<lambda>n. n \<noteq> Null) ?ys" by (auto simp: list_all_iff)
  then have "list_all (\<lambda>n. n \<noteq> Null) ?L" by simp
  then have f: "filter (\<lambda>n. n \<noteq> Null) ?L = ?L" by (rule filter_all)
  have "map sort_key_of ?L = map sort_key_of ?ys"
    using keys by (rule map_sort_key_of_optimize_list)
  then have "sorted (map sort_key_of ?L)" by simp
  then have s: "sort_key sort_key_of ?L = ?L" by (rule sort_key_id_if_sorted)
  have t: "optimize_list a2 p2 0 ?L = ?L"
  proof (rule optimize_list_twice)
    fix x b1 b2 q1 q2
    assume "x \<in> set ?ys"
    then have "x \<in> set content" using sub by blast
    moreover from this have "keyed x" using Message.prems by (auto simp: list_all_iff)
    ultimately show "optimize_node b2 q2 (optimize_node b1 q1 x) = optimize_node b1 q1 x"
      by (rule Message.IH)
  qed
  show ?case by (simp add: f s t)
next
  case (Concept i q kids)
  let ?ys = "regroup (filter (\<lambda>n. n \<noteq> Null) kids)"
  let ?L = "optimize_list a1 p1 0 ?ys"
  have sub: "set ?ys \<subseteq> set kids" by auto
  have "list_all (\<lambda>n. n \<noteq> Null) ?ys" by (auto simp: list_all_iff)
  then have "list_all (\<lambda>n. n \<noteq> Null) ?L" by simp
  then have f: "filter (\<lambda>n. n \<noteq> Null) ?L = ?L" by (rule filter_all)
  have g: "regroup ?L = ?L" by (rule regroup_optimize_list)
  have t: "optimize_list a2 p2 0 ?L = ?L"
  proof (rule optimize_list_twice)
    fix x b1 b2 q1 q2
    assume "x \<in> set ?ys"
    then have "x \<in> set kids" using sub by blast
    moreover from this have "keyed x" using Concept.prems by (auto simp: list_all_iff)
    ultimately show "optimize_node b2 q2 (optimize_node b1 q1 x) = optimize_node b1 q1 x"
      by (rule Concept.IH)
  qed
  show ?case by (simp add: f g t)
next
  case (Relation n kids)
  let ?ys = "filter (\<lambda>n. n \<noteq> Null) kids"
  let ?L = "optimize_list a1 p1 0 ?ys"
  have "list_all (\<lambda>n. n \<noteq> Null) ?ys" by (auto simp: list_all_iff)
  then have "list_all (\<lambda>n. n \<noteq> Null) ?L" by simp
  then have f: "filter (\<lambda>n. n \<noteq> Null) ?L = ?L" by (rule filter_all)
  have t: "optimize_list a2 p2 0 ?L = ?L"
  proof (rule optimize_list_twice)
    fix x b1 b2 q1 q2
    assume "x \<in> set ?ys"
    then have "x \<in> set kids" by simp
    moreover from this have "keyed x" using Relation.prems by (auto simp: list_all_iff)
    ultimately show "optimize_node b2 q2 (optimize_node b1 q1 x) = optimize_node b1 q1 x"
      by (rule Relation.IH)
  qed
  show ?case by (simp add: f t)
next
  case (Quantifier n kids)
  have "optimize_list a2 p2 0 (optimize_list a1 p1 0 kids) = optimize_list a1 p1 0 kids"
  proof (rule optimize_list_twice)
    fix x b1 b2 q1 q2
    assume "x \<in> set kids"
    moreover from this have "keyed x" using Quantifier.prems by (auto simp: list_all_iff)
    ultimately show "optimize_node b2 q2 (optimize_node b1 q1 x) = optimize_node b1 q1 x"
      by (rule Quantifier.IH)
  qed
  then show ?case by simp
next
  case (Reference s path)
  show ?case by simp
next
  case (Other t v attrs kids)
  have "optimize_list a2 p2 0 (optimize_list a1 p1 0 kids) = optimize_list a1 p1 0 kids"
  proof (rule optimize_list_twice)
    fix x b1 b2 q1 q2
    assume "x \<in> set kids"
    moreover from this have "keyed x" using Other.prems by (auto simp: list_all_iff)
    ultimately show "optimize_node b2 q2 (optimize_node b1 q1 x) = optimize_node b1 q1 x"
      by (rule Other.IH)
  qed
  then show ?case by simp
qed

text \<open>
  C9 as the specification words it does not hold. A message is sorted before its items
  are optimized, so a concept without \<open>id\<close> is sorted under the empty id and then given
  its placeholder \<open>concept_\<close>\<open>address\<close>; the second run sorts it under that placeholder,
  behind a concept named \<open>a\<close>.
\<close>

theorem optimize_idempotent_counterexample:
  "optimize (\<lambda>p. 7) (Message None [Concept None None [], Concept (Some ''a'') None []]) =
     Message (Some ''1.0'') [Concept (Some ''concept_7'') None [], Concept (Some ''a'') None []]
   \<and> optimize (\<lambda>p. 7)
       (optimize (\<lambda>p. 7) (Message None [Concept None None [], Concept (Some ''a'') None []])) =
     Message (Some ''1.0'') [Concept (Some ''a'') None [], Concept (Some ''concept_7'') None []]"
  by (simp add: optimize_def placeholder_def str_of_int_def string_of_nat.simps digit_char_def
        regroup_def or_blank_def)

text \<open>
  C9, amended. For every IR value in which every Concept and every Relation that is an
  item of a message's content carries its \<open>id\<close> or \<open>name\<close> (as every value lowered from a
  syntax tree of the parser does), optimizing the optimized value gives the optimized
  value again, whatever addresses the two runs see.
\<close>

theorem optimize_idempotent:
  "keyed x \<longrightarrow> optimize addr2 (optimize addr1 x) = optimize addr1 x"
  by (simp add: optimize_def optimize_node_twice)

theorem optimize_idempotent_witness:
  "optimize (\<lambda>p. 9)
     (optimize (\<lambda>p. 7)
        (Message None [Relation (Some ''r'') [Concept None None []], Concept (Some ''a'') None []])) =
   optimize (\<lambda>p. 7)
     (Message None [Relation (Some ''r'') [Concept None None []], Concept (Some ''a'') None []])
   \<and> optimize (\<lambda>p. 7)
     (Message None [Relation (Some ''r'') [Concept None None []], Concept (Some ''a'') None []]) =
   Message (Some ''1.0'')
     [Concept (Some ''a'') None [], Relation (Some ''r'') [Concept (Some ''concept_7'') None []]]"
proof -
  have "optimize (\<lambda>p. 7)
     (Message None [Relation (Some ''r'') [Concept None None []], Concept (Some ''a'') None []]) =
   Message (Some ''1.0'')
     [Concept (Some ''a'') None [], Relation (Some ''r'') [Concept (Some ''concept_7'') None []]]"
    by (simp add: optimize_def placeholder_def str_of_int_def string_of_nat.simps digit_char_def
          regroup_def or_blank_def)
  then show ?thesis
    using optimize_idempotent [of
        "Message None [Relation (Some ''r'') [Concept None None []], Concept (Some ''a'') None []]"
        "\<lambda>p. 9" "\<lambda>p. 7"]
    by simp
qed

section \<open>Determinism of the printed form\<close>

lemma optimize_attributes_complete:
  "complete_attributes attrs \<Longrightarrow> optimize_attributes a attrs = optimize_attributes a' attrs"
  by (auto simp: optimize_attributes_def complete_attributes_def)

lemma optimize_list_cong:
  assumes "\<And>x a a' p p'. x \<in> set xs \<Longrightarrow> optimize_node a p x = optimize_node a' p' x"
  shows "optimize_list a p i xs = optimize_list a' p' i' xs"
  using assms by (induction xs arbitrary: i i') auto

text \<open>Where nothing lacks its name, the result of the optimizer depends on no address.\<close>

lemma optimize_node_complete:
  "complete x \<Longrightarrow> optimize_node a p x = optimize_node a' p' x"
proof (induction x arbitrary: a a' p p')
  case (Message version content)
  have "optimize_list a p 0 (sort_key sort_key_of (filter (\<lambda>n. n \<noteq> Null) content)) =
        optimize_list a' p' 0 (sort_key sort_key_of (filter (\<lambda>n. n \<noteq> Null) content))"
    by (rule optimize_list_cong) (use Message in \<open>auto simp: list_all_iff\<close>)
  then show ?case by simp
next
  case (Concept i q kids)
  have "optimize_list a p 0 (regroup (filter (\<lambda>n. n \<noteq> Null) kids)) =
        optimize_list a' p' 0 (regroup (filter (\<lambda>n. n \<noteq> Null) kids))"
    by (rule optimize_list_cong) (use Concept in \<open>auto simp: list_all_iff\<close>)
  then show ?case using Concept.prems by (auto simp: placeholder_def)
next
  case (Relation n kids)
  have "optimize_list a p 0 (filter (\<lambda>n. n \<noteq> Null) kids) =
        optimize_list a' p' 0 (filter (\<lambda>n. n \<noteq> Null) kids)"
    by (rule optimize_list_cong) (use Relation in \<open>auto simp: list_all_iff\<close>)
  then show ?case using Relation.prems by (auto simp: placeholder_def)
next
  case (Quantifier n kids)
  have "optimize_list a p 0 kids = optimize_list a' p' 0 kids"
    by (rule optimize_list_cong) (use Quantifier in \<open>auto simp: list_all_iff\<close>)
  then show ?case by simp
next
  case (Other t v attrs kids)
  have "optimize_list a p 0 kids = optimize_list a' p' 0 kids"
    by (rule optimize_list_cong) (use Other in \<open>auto simp: list_all_iff\<close>)
  then show ?case
    using Other.prems optimize_attributes_complete [of attrs "a (p @ [length kids])"
        "a' (p' @ [length kids])"]
    by simp
qed simp_all

text \<open>
  C2 as the specification words it does not hold. The sort of a message's content is
  stable and its key is (kind, id, name): two references have the same key and keep the
  order they came in. The children of a concept are grouped by kind, not sorted, and the
  children of a relation or quantifier are left in their order: two concepts under a
  concept keep the order they came in.
\<close>

theorem print_deterministic_counterexample:
  "generate (optimize (\<lambda>p. 0)
      (Message (Some ''1.0'') [Reference (Some ''prev1'') [], Reference (Some ''prev2'') []])) =
     ''@v1.0{'' @ [newline] @ ''  ^prev1'' @ [newline] @ ''  ^prev2'' @ [newline] @ ''}''
   \<and> generate (optimize (\<lambda>p. 0)
      (Message (Some ''1.0'') [Reference (Some ''prev2'') [], Reference (Some ''prev1'') []])) =
     ''@v1.0{'' @ [newline] @ ''  ^prev2'' @ [newline] @ ''  ^prev1'' @ [newline] @ ''}''
   \<and> generate (optimize (\<lambda>p. 0)
      (Concept (Some ''a'') None [Concept (Some ''b'') None [], Concept (Some ''c'') None []])) =
     ''#a{'' @ [newline] @ ''  #b'' @ [newline] @ ''  #c'' @ [newline] @ ''}''
   \<and> generate (optimize (\<lambda>p. 0)
      (Concept (Some ''a'') None [Concept (Some ''c'') None [], Concept (Some ''b'') None []])) =
     ''#a{'' @ [newline] @ ''  #c'' @ [newline] @ ''  #b'' @ [newline] @ ''}''"
  by (simp add: optimize_def generate_def body_line_def indent_def or_blank_def regroup_def
        placeholder_def eval_nat_numeral)

text \<open>
  C2, amended. For every message in which nothing lacks its \<open>id\<close> or \<open>name\<close> and whose
  content items (\<open>None\<close> entries apart) have pairwise different sort keys (kind, id, name),
  and for every permutation of its content list, optimizing and printing the permuted
  message gives the same optimized value and the same text as the original, whatever
  addresses the two runs see. (Nothing is claimed for permutations of the children of the
  nodes below.)
\<close>

theorem print_deterministic:
  assumes "mset content' = mset content"
    and "distinct (map sort_key_of (filter (\<lambda>n. n \<noteq> Null) content))"
    and "complete (Message version content)"
  shows "optimize addr' (Message version content') = optimize addr (Message version content)
       \<and> generate (optimize addr' (Message version content')) =
         generate (optimize addr (Message version content))"
proof -
  let ?xs = "filter (\<lambda>n. n \<noteq> Null) content" and ?xs' = "filter (\<lambda>n. n \<noteq> Null) content'"
  have m: "mset ?xs' = mset (sort_key sort_key_of ?xs)" using assms(1) by simp
  have "set content' = set content" using assms(1) by (rule mset_eq_setD)
  then have "set ?xs' = set ?xs" by simp
  then have inj: "inj_on sort_key_of (set ?xs')" using assms(2) by (simp add: distinct_map)
  have s: "sort_key sort_key_of ?xs' = sort_key sort_key_of ?xs"
    using m inj by (rule sort_key_inj_key_eq) simp
  have "optimize_list addr' [] 0 (sort_key sort_key_of ?xs) =
        optimize_list addr [] 0 (sort_key sort_key_of ?xs)"
  proof (rule optimize_list_cong)
    fix x a a' p p'
    assume "x \<in> set (sort_key sort_key_of ?xs)"
    then have "complete x" using assms(3) by (auto simp: list_all_iff)
    then show "optimize_node a p x = optimize_node a' p' x" by (rule optimize_node_complete)
  qed
  then have "optimize addr' (Message version content') = optimize addr (Message version content)"
    using s by (simp add: optimize_def)
  then show ?thesis by simp
qed

theorem print_deterministic_witness:
  "generate (optimize (\<lambda>p. 1)
      (Message (Some ''1.0'') [Relation (Some ''r'') [], Null, Concept (Some ''b'') None [],
                               Concept (Some ''a'') None []])) =
   generate (optimize (\<lambda>p. 2)
      (Message (Some ''1.0'') [Concept (Some ''a'') None [], Relation (Some ''r'') [],
                               Concept (Some ''b'') None [], Null]))
   \<and> generate (optimize (\<lambda>p. 2)
      (Message (Some ''1.0'') [Concept (Some ''a'') None [], Relation (Some ''r'') [],
                               Concept (Some ''b'') None [], Null])) =
     ''@v1.0{'' @ [newline] @ ''  #a'' @ [newline] @ ''  #b'' @ [newline] @ ''  ~r'' @ [newline] @ ''}''"
proof -
  have e: "generate (optimize (\<lambda>p. 2)
      (Message (Some ''1.0'') [Concept (Some ''a'') None [], Relation (Some ''r'') [],
                               Concept (Some ''b'') None [], Null])) =
     ''@v1.0{'' @ [newline] @ ''  #a'' @ [newline] @ ''  #b'' @ [newline] @ ''  ~r'' @ [newline] @ ''}''"
    by (simp add: optimize_def generate_def body_line_def indent_def or_blank_def regroup_def
          placeholder_def eval_nat_numeral)
  have p: "mset [Relation (Some ''r'') [], Null, Concept (Some ''b'') None [],
              Concept (Some ''a'') None []] =
        mset [Concept (Some ''a'') None [], Relation (Some ''r'') [],
              Concept (Some ''b'') None [], Null]"
    by simp
  have d: "distinct (map sort_key_of (filter (\<lambda>n. n \<noteq> Null)
        [Concept (Some ''a'') None [], Relation (Some ''r'') [], Concept (Some ''b'') None [], Null]))"
    by (simp add: or_blank_def)
  have c: "complete (Message (Some ''1.0'')
        [Concept (Some ''a'') None [], Relation (Some ''r'') [], Concept (Some ''b'') None [], Null])"
    by simp
  show ?thesis
    using print_deterministic [OF p d c, of "\<lambda>p. 1" "\<lambda>p. 2"] e by simp
qed


section \<open>The round trip\<close>

lemmas scan_simps = tokenize_def next_token_def isspace_def single_def tokenize_version_def
  match_version_def tokenize_concept_def tokenize_relation_def tokenize_quantifier_def
  tokenize_reference_def tokenize_identifier_def tokenize_whitespace_def after_whitespace_def
  tokenize_run_def identifier_char_def concept_char_def reference_char_def isalnum_def
  isalpha_def isdigit_def is_decimal_def newline_def

lemmas parse_simps = parse_def parse_message_def consume_close_def leaf_def

lemmas build_simps = message_version_def concept_fields_def name_field_def reference_fields_def

lemmas print_simps = optimize_def generate_def body_line_def indent_def or_blank_def
  regroup_def placeholder_def eval_nat_numeral optimize_attributes_def newline_def

lemma lower_quantity:
  "lower_text ''@v1.0{$quantity{3}}'' =
     Some (Message (Some ''1.0'')
             [Quantifier (Some ''quantity'') [Other NT_PROPERTY (Some ''3'') [] []]])"
  by (simp add: lower_text_def scan_simps parse_simps build_simps)

lemma print_quantity:
  "canonical_text (\<lambda>p. 0) ''@v1.0{$quantity{3}}'' =
     Some (''@v1.0{'' @ [newline] @ ''  $quantity{'' @ [newline] @ ''  }'' @ [newline] @ ''}'')"
  using lower_quantity by (simp add: canonical_text_def print_simps)

lemma lower_printed_quantity:
  "lower_text (''@v1.0{'' @ [newline] @ ''  $quantity{'' @ [newline] @ ''  }'' @ [newline] @ ''}'') =
     Some (Message (Some ''1.0'') [Quantifier (Some ''quantity'') []])"
  by (simp add: lower_text_def scan_simps parse_simps build_simps)

text \<open>
  C1 fails on the example of the compiler's own \<open>main\<close>. The text \<open>@v1.0{$quantity{3}}\<close>
  is accepted, and its quantifier holds the property \<open>3\<close>. \<open>_generate_node\<close> has no case
  for the \<open>PROPERTY\<close> dictionary the builder makes of it and returns the empty string, so
  the printed text is \<open>@v1.0{ $quantity{ } }\<close>: valid, but it lowers to a quantifier without
  children, and the canonical forms of the two differ.
\<close>

theorem roundtrip_loses_property:
  "lower_text ''@v1.0{$quantity{3}}'' =
     Some (Message (Some ''1.0'')
             [Quantifier (Some ''quantity'') [Other NT_PROPERTY (Some ''3'') [] []]])
   \<and> canonical_text (\<lambda>p. 0) ''@v1.0{$quantity{3}}'' =
     Some (''@v1.0{'' @ [newline] @ ''  $quantity{'' @ [newline] @ ''  }'' @ [newline] @ ''}'')
   \<and> lower_text (''@v1.0{'' @ [newline] @ ''  $quantity{'' @ [newline] @ ''  }'' @ [newline] @ ''}'') =
     Some (Message (Some ''1.0'') [Quantifier (Some ''quantity'') []])
   \<and> optimize (\<lambda>p. 0) (Message (Some ''1.0'') [Quantifier (Some ''quantity'') []]) \<noteq>
     optimize (\<lambda>p. 0)
       (Message (Some ''1.0'')
          [Quantifier (Some ''quantity'') [Other NT_PROPERTY (Some ''3'') [] []]])"
  using lower_quantity print_quantity lower_printed_quantity by (simp add: optimize_def)

text \<open>A second loss, of another kind: an empty qualifier. \<open>#a~\<close> lowers to a concept with
  the qualifier \<open>''\<close>, is printed as \<open>#a\<close>, and that lowers to a concept without qualifier.\<close>

lemma roundtrip_loses_empty_qualifier:
  "lower_text ''@v1.0{#a~}'' = Some (Message (Some ''1.0'') [Concept (Some ''a'') (Some []) []])
   \<and> canonical_text (\<lambda>p. 0) ''@v1.0{#a~}'' =
     Some (''@v1.0{'' @ [newline] @ ''  #a'' @ [newline] @ ''}'')
   \<and> lower_text (''@v1.0{'' @ [newline] @ ''  #a'' @ [newline] @ ''}'') =
     Some (Message (Some ''1.0'') [Concept (Some ''a'') None []])"
proof -
  have a: "lower_text ''@v1.0{#a~}'' =
      Some (Message (Some ''1.0'') [Concept (Some ''a'') (Some []) []])"
    by (simp add: lower_text_def scan_simps parse_simps build_simps)
  have b: "canonical_text (\<lambda>p. 0) ''@v1.0{#a~}'' =
      Some (''@v1.0{'' @ [newline] @ ''  #a'' @ [newline] @ ''}'')"
    using a by (simp add: canonical_text_def print_simps)
  have c: "lower_text (''@v1.0{'' @ [newline] @ ''  #a'' @ [newline] @ ''}'') =
      Some (Message (Some ''1.0'') [Concept (Some ''a'') None []])"
    by (simp add: lower_text_def scan_simps parse_simps build_simps)
  show ?thesis using a b c by simp
qed

end
